theory Spec2Isabelle
  imports Complex_Main "HOL-Library.Monad_Syntax"
begin

section \<open>The particle system of \<^verbatim>\<open>ParticleSystem.cpp\<close>\<close>

text \<open>
  The C++ class \<^verbatim>\<open>love::graphics::opengl::ParticleSystem\<close> owns a fixed array of
  particles (\<^verbatim>\<open>pMem\<close>), an allocation pointer (\<^verbatim>\<open>pFree\<close>) and an intrusive doubly
  linked list of the live particles (\<^verbatim>\<open>pHead\<close>, \<^verbatim>\<open>pTail\<close>, and the \<^verbatim>\<open>prev\<close> and
  \<^verbatim>\<open>next\<close> fields of each particle).

  Conventions of the embedding:
  \<^item> a pointer into \<^verbatim>\<open>pMem\<close> is the index of the slot (\<open>nat\<close>); a pointer that may be
    \<^verbatim>\<open>nullptr\<close> is a \<open>nat option\<close>; \<^verbatim>\<open>pMem\<close> itself is \<open>None\<close> when it is \<^verbatim>\<open>nullptr\<close>;
  \<^item> every member function takes the object and returns the new object; a function that
    dereferences pointers returns an \<open>option\<close>, and \<open>None\<close> stands for undefined behaviour
    of the C++ code (a null or out-of-range pointer, an out-of-range index of a vector, a
    conversion of a float outside the range of \<^verbatim>\<open>size_t\<close>) or, for a loop, for not
    returning;
  \<^item> the emission scheduler of \<^verbatim>\<open>update\<close> computes in binary32: \<^verbatim>\<open>emissionRate\<close> and
    \<^verbatim>\<open>emitCounter\<close> are values of the type \<open>float\<close> (the finite values, both zeros, both
    infinities and NaN), and every addition, subtraction, division and comparison of the
    scheduler is the IEEE 754 operation, rounded to the nearest binary32 value, ties to
    even (\<open>fl32\<close>): how often the emission loop runs, and whether it ends, depends on the
    rounding, on the sign of a zero rate and on the infinities;
  \<^item> every other \<^verbatim>\<open>float\<close> (the time step, the lives and lifetimes, the sizes, the
    windows and the colours) is a \<open>real\<close>, with exact arithmetic;
  \<^item> \<^verbatim>\<open>uint32\<close> counters are \<open>nat\<close> with the wrap-around modulo \<open>2 ^ 32\<close> written out,
    \<^verbatim>\<open>size_t\<close> is \<open>nat\<close> modulo \<open>2 ^ 64\<close>;
  \<^item> the process-wide random generator \<^verbatim>\<open>rng\<close> is part of the state: two arbitrary
    infinite sequences of draws and the number of calls made so far; a call whose result
    only enters a field that is left out is made all the same, and its result dropped;
  \<^item> the fields of a particle and of the system that only carry the kinematics and the
    rendering set-up (position, origin, velocity, accelerations, damping, rotation, spin,
    angle, extents of the area spread, direction, speed, offset, texture, vertex buffers)
    are left out: the code never branches on them, never uses them as an index, and never
    computes a modelled field from them. The arguments \<open>t\<close> of \<^verbatim>\<open>addParticle\<close> and
    \<^verbatim>\<open>initParticle\<close> are kept, though they only enter the position.
\<close>

subsection \<open>Data\<close>

datatype Colorf = Colorf real real real real

record Particle =
  p_prev :: "nat option"
  p_next :: "nat option"
  p_lifetime :: real
  p_life :: real
  p_size :: real
  p_sizeOffset :: real
  p_sizeIntervalSize :: real
  p_color :: Colorf
  p_quadIndex :: nat

datatype InsertMode =
  INSERT_MODE_TOP | INSERT_MODE_BOTTOM | INSERT_MODE_RANDOM | INSERT_MODE_MAX_ENUM

datatype AreaSpreadDistribution =
  DISTRIBUTION_NONE | DISTRIBUTION_UNIFORM | DISTRIBUTION_NORMAL | DISTRIBUTION_MAX_ENUM

datatype float = Finite real | NegZero | PlusInfinity | MinusInfinity | NaN
  \<comment> \<open>a binary32 value; \<open>Finite 0\<close> is \<^verbatim>\<open>+0.0f\<close>, \<open>NegZero\<close> is \<^verbatim>\<open>-0.0f\<close>\<close>

record RandomGenerator =
  unit_draws :: "nat \<Rightarrow> real"
  int_draws :: "nat \<Rightarrow> nat"
  drawn :: nat

record ParticleSystem =
  pMem :: "Particle list option"
  pFree :: nat
  pHead :: "nat option"
  pTail :: "nat option"
  active :: bool
  insertMode :: InsertMode
  maxParticles :: nat
  activeParticles :: nat
  emissionRate :: float
  emitCounter :: float
  areaSpreadDistribution :: AreaSpreadDistribution
  lifetime :: real
  life :: real
  particleLifeMin :: real
  particleLifeMax :: real
  sizes :: "real list"
  sizeVariation :: real
  colors :: "Colorf list"
  quads :: "nat list"
  rng :: RandomGenerator

datatype error =
  Invalid_ParticleSystem_size | Invalid_buffer_size | Out_of_memory | Invalid_emission_rate

subsection \<open>Machine arithmetic and the random generator\<close>

definition u32 :: "nat \<Rightarrow> nat" where
  "u32 n = n mod 2 ^ 32"

definition size_t_minus1 :: "nat \<Rightarrow> nat" where
  \<comment> \<open>\<^verbatim>\<open>v.size() - 1\<close> in \<^verbatim>\<open>size_t\<close>: an empty vector gives \<open>2 ^ 64 - 1\<close>.\<close>
  "size_t_minus1 n = (if n = 0 then 2 ^ 64 - 1 else n - 1)"

definition to_size_t :: "real \<Rightarrow> nat option" where
  \<comment> \<open>\<^verbatim>\<open>(size_t) x\<close>: truncation toward zero; undefined when the truncated value is not
      a \<^verbatim>\<open>size_t\<close>.\<close>
  "to_size_t x = (if - 1 < x \<and> x < 2 ^ 64 then Some (nat \<lfloor>x\<rfloor>) else None)"

definition vec_at :: "'a list \<Rightarrow> nat \<Rightarrow> 'a option" where
  \<comment> \<open>\<^verbatim>\<open>v[i]\<close> of a \<^verbatim>\<open>std::vector\<close>.\<close>
  "vec_at xs i = (if i < length xs then Some (xs ! i) else None)"

text \<open>
  Modelled from the spec: \<^verbatim>\<open>love::math::RandomGenerator\<close> (its source is not part of
  this development). The spec gives \<^verbatim>\<open>uniform(min, max)\<close>, \<^verbatim>\<open>uniform(max)\<close>
  "equivalent to \<^verbatim>\<open>uniform(0, max)\<close>", \<^verbatim>\<open>normal(stdDev)\<close> and \<^verbatim>\<open>integer()\<close>, a wide
  unsigned integer. Every call takes the next element of the stream: a uniform draw
  scales the element \<open>u\<close> of \<open>unit_draws\<close>, \<open>rng_discard n\<close> is \<open>n\<close> calls whose results
  are not used by the model (uniform or normal).
\<close>

definition rng_random :: "real \<Rightarrow> real \<Rightarrow> RandomGenerator \<Rightarrow> real \<times> RandomGenerator" where
  "rng_random lo hi g =
     (lo + unit_draws g (drawn g) * (hi - lo), g\<lparr>drawn := drawn g + 1\<rparr>)"

definition rng_rand :: "RandomGenerator \<Rightarrow> nat \<times> RandomGenerator" where
  "rng_rand g = (int_draws g (drawn g), g\<lparr>drawn := drawn g + 1\<rparr>)"

definition rng_discard :: "nat \<Rightarrow> RandomGenerator \<Rightarrow> RandomGenerator" where
  "rng_discard n g = g\<lparr>drawn := drawn g + n\<rparr>"

subsection \<open>Binary32 arithmetic of the emission scheduler\<close>

text \<open>
  The finite binary32 values are the reals \<open>m * 2 ^ e\<close> with \<open>\<bar>m\<bar> < 2 ^ 24\<close> and
  \<open>- 149 \<le> e \<le> 104\<close>. \<open>fl32 x\<close> is the binary32 value nearest to the real \<open>x\<close>, ties to
  even: \<open>x\<close> is rounded to a multiple of the quantum \<open>2 ^ (exponent x - 23)\<close> of its binade
  (\<open>2 ^ - 149\<close> below the smallest normal value \<open>2 ^ - 126\<close>); a result of magnitude
  \<open>2 ^ 128\<close> is an overflow and gives the infinity, a result 0 keeps the sign of \<open>x\<close>.
\<close>

definition pow2 :: "int \<Rightarrow> real" where
  "pow2 e = (if 0 \<le> e then 2 ^ nat e else 1 / 2 ^ nat (- e))"

definition exponent :: "real \<Rightarrow> int" where
  \<comment> \<open>the largest \<open>e\<close> of \<open>- 126 .. 127\<close> with \<open>2 ^ e \<le> \<bar>x\<bar>\<close>, and \<open>- 126\<close> when there is none\<close>
  "exponent x =
     (if \<bar>x\<bar> < pow2 (- 126) then - 126
      else Max (Set.filter (\<lambda>e. pow2 e \<le> \<bar>x\<bar>) {- 126..127}))"

definition round_even :: "real \<Rightarrow> int" where
  \<comment> \<open>the nearest integer, the even one of two nearest\<close>
  "round_even y =
     (let n = \<lfloor>y\<rfloor>; d = y - of_int n
      in if d < 1 / 2 then n else if 1 / 2 < d then n + 1 else if even n then n else n + 1)"

definition fl32 :: "real \<Rightarrow> float" where
  "fl32 x =
     (let q = pow2 (exponent x - 23); y = of_int (round_even (x / q)) * q
      in if pow2 128 \<le> \<bar>y\<bar> then (if 0 < x then PlusInfinity else MinusInfinity)
         else if y = 0 then (if x < 0 then NegZero else Finite 0)
         else Finite y)"

definition the_real :: "float \<Rightarrow> real" where
  \<comment> \<open>the value of a finite float\<close>
  "the_real a = (case a of Finite x \<Rightarrow> x | _ \<Rightarrow> 0)"

definition negative :: "float \<Rightarrow> bool" where
  \<comment> \<open>the sign bit (of a float that is not NaN)\<close>
  "negative a = (case a of Finite x \<Rightarrow> x < 0 | NegZero \<Rightarrow> True | MinusInfinity \<Rightarrow> True
                 | _ \<Rightarrow> False)"

definition is_zero :: "float \<Rightarrow> bool" where
  "is_zero a \<longleftrightarrow> a = Finite 0 \<or> a = NegZero"

definition is_infinite :: "float \<Rightarrow> bool" where
  "is_infinite a \<longleftrightarrow> a = PlusInfinity \<or> a = MinusInfinity"

definition f_neg :: "float \<Rightarrow> float" where
  "f_neg a = (case a of Finite x \<Rightarrow> (if x = 0 then NegZero else Finite (- x))
              | NegZero \<Rightarrow> Finite 0 | PlusInfinity \<Rightarrow> MinusInfinity
              | MinusInfinity \<Rightarrow> PlusInfinity | NaN \<Rightarrow> NaN)"

definition f_add :: "float \<Rightarrow> float \<Rightarrow> float" where
  \<comment> \<open>\<^verbatim>\<open>a + b\<close>\<close>
  "f_add a b =
     (if a = NaN \<or> b = NaN then NaN
      else if is_infinite a then (if is_infinite b \<and> b \<noteq> a then NaN else a)
      else if is_infinite b then b
      else if is_zero a \<and> is_zero b then (if a = NegZero \<and> b = NegZero then NegZero else Finite 0)
      else fl32 (the_real a + the_real b))"

definition f_sub :: "float \<Rightarrow> float \<Rightarrow> float" where
  \<comment> \<open>\<^verbatim>\<open>a - b\<close>\<close>
  "f_sub a b = f_add a (f_neg b)"

definition f_div :: "float \<Rightarrow> float \<Rightarrow> float" where
  \<comment> \<open>\<^verbatim>\<open>a / b\<close>; no division traps: a zero divisor gives an infinity or NaN\<close>
  "f_div a b =
     (if a = NaN \<or> b = NaN \<or> (is_infinite a \<and> is_infinite b) \<or> (is_zero a \<and> is_zero b) then NaN
      else if is_infinite a \<or> is_zero b
        then (if negative a = negative b then PlusInfinity else MinusInfinity)
      else if is_zero a \<or> is_infinite b
        then (if negative a = negative b then Finite 0 else NegZero)
      else fl32 (the_real a / the_real b))"

definition f_less :: "float \<Rightarrow> float \<Rightarrow> bool" where
  \<comment> \<open>\<^verbatim>\<open>a < b\<close>, and \<^verbatim>\<open>b > a\<close>; false when one of them is NaN; the two zeros are equal\<close>
  "f_less a b =
     (if a = NaN \<or> b = NaN then False
      else if a = PlusInfinity \<or> b = MinusInfinity then False
      else if a = MinusInfinity \<or> b = PlusInfinity then True
      else the_real a < the_real b)"

subsection \<open>Reading and writing particles\<close>

definition deref :: "nat \<Rightarrow> ParticleSystem \<Rightarrow> Particle option" where
  \<comment> \<open>\<^verbatim>\<open>*p\<close>\<close>
  "deref p s =
     (case pMem s of None \<Rightarrow> None
      | Some m \<Rightarrow> if p < length m then Some (m ! p) else None)"

definition assign :: "nat \<Rightarrow> (Particle \<Rightarrow> Particle) \<Rightarrow> ParticleSystem \<Rightarrow> ParticleSystem option" where
  \<comment> \<open>\<^verbatim>\<open>p->field = v\<close>, and \<^verbatim>\<open>*p = v\<close>\<close>
  "assign p f s =
     (case pMem s of None \<Rightarrow> None
      | Some m \<Rightarrow> if p < length m then Some (s\<lparr>pMem := Some (m[p := f (m ! p)])\<rparr>) else None)"

subsection \<open>Queries\<close>

definition getCount :: "ParticleSystem \<Rightarrow> nat" where
  "getCount s = activeParticles s"

definition getBufferSize :: "ParticleSystem \<Rightarrow> nat" where
  "getBufferSize s = maxParticles s"

definition isActive :: "ParticleSystem \<Rightarrow> bool" where
  "isActive s = active s"

definition isPaused :: "ParticleSystem \<Rightarrow> bool" where
  "isPaused s = (\<not> active s \<and> life s < lifetime s)"

definition isStopped :: "ParticleSystem \<Rightarrow> bool" where
  "isStopped s = (\<not> active s \<and> life s \<ge> lifetime s)"

definition isEmpty :: "ParticleSystem \<Rightarrow> bool" where
  "isEmpty s = (activeParticles s = 0)"

definition isFull :: "ParticleSystem \<Rightarrow> bool" where
  "isFull s = (activeParticles s = maxParticles s)"

subsection \<open>The active list\<close>

definition insertTop :: "nat \<Rightarrow> ParticleSystem \<Rightarrow> ParticleSystem option" where
  "insertTop p s = do {
     s1 \<leftarrow> (if pHead s = None
            then assign p (p_prev_update (\<lambda>_. None)) (s\<lparr>pHead := Some p\<rparr>)
            else do {
              t \<leftarrow> pTail s;
              s' \<leftarrow> assign t (p_next_update (\<lambda>_. Some p)) s;
              assign p (p_prev_update (\<lambda>_. pTail s')) s' });
     s2 \<leftarrow> assign p (p_next_update (\<lambda>_. None)) s1;
     Some (s2\<lparr>pTail := Some p\<rparr>) }"

definition insertBottom :: "nat \<Rightarrow> ParticleSystem \<Rightarrow> ParticleSystem option" where
  "insertBottom p s = do {
     s1 \<leftarrow> (if pTail s = None
            then assign p (p_next_update (\<lambda>_. None)) (s\<lparr>pTail := Some p\<rparr>)
            else do {
              h \<leftarrow> pHead s;
              s' \<leftarrow> assign h (p_prev_update (\<lambda>_. Some p)) s;
              assign p (p_next_update (\<lambda>_. pHead s')) s' });
     s2 \<leftarrow> assign p (p_prev_update (\<lambda>_. None)) s1;
     Some (s2\<lparr>pHead := Some p\<rparr>) }"

definition insertRandom :: "nat \<Rightarrow> ParticleSystem \<Rightarrow> ParticleSystem option" where
  "insertRandom p s =
     (let (r, g) = rng_rand (rng s);
          s0 = s\<lparr>rng := g\<rparr>;
          pos = r mod (activeParticles s0 + 1)
      in if pos = activeParticles s0
         then do {
           let pA = pHead s0;
           s1 \<leftarrow> (case pA of None \<Rightarrow> Some s0
                  | Some a \<Rightarrow> assign a (p_prev_update (\<lambda>_. Some p)) s0);
           s2 \<leftarrow> assign p (p_prev_update (\<lambda>_. None)) s1;
           s3 \<leftarrow> assign p (p_next_update (\<lambda>_. pA)) s2;
           Some (s3\<lparr>pHead := Some p\<rparr>) }
         else do {
           let pA = pos;
           a \<leftarrow> deref pA s0;
           let pB = p_next a;
           s1 \<leftarrow> assign pA (p_next_update (\<lambda>_. Some p)) s0;
           s2 \<leftarrow> (case pB of Some b \<Rightarrow> assign b (p_prev_update (\<lambda>_. Some p)) s1
                  | None \<Rightarrow> Some (s1\<lparr>pTail := Some p\<rparr>));
           s3 \<leftarrow> assign p (p_prev_update (\<lambda>_. Some pA)) s2;
           assign p (p_next_update (\<lambda>_. pB)) s3 })"

text \<open>
  \<^verbatim>\<open>removeParticle\<close> in two parts: \<open>unlink\<close> is the code up to the comment
  "The (in memory) last particle can now be moved into the free slot", \<open>relocate\<close> is the
  body of \<^verbatim>\<open>if (p != pFree)\<close>.
\<close>

definition unlink :: "nat \<Rightarrow> ParticleSystem \<Rightarrow> (nat option \<times> ParticleSystem) option" where
  "unlink p s = do {
     x \<leftarrow> deref p s;
     s1 \<leftarrow> (case p_prev x of
              Some a \<Rightarrow> assign a (p_next_update (\<lambda>_. p_next x)) s
            | None \<Rightarrow> Some (s\<lparr>pHead := p_next x\<rparr>));
     y \<leftarrow> deref p s1;
     (case p_next y of
        Some b \<Rightarrow> do {
          s2 \<leftarrow> assign b (p_prev_update (\<lambda>_. p_prev y)) s1;
          z \<leftarrow> deref p s2;
          Some (p_next z, s2) }
      | None \<Rightarrow> Some (None, s1\<lparr>pTail := p_prev y\<rparr>)) }"

definition relocate :: "nat \<Rightarrow> nat option \<Rightarrow> ParticleSystem \<Rightarrow> (nat option \<times> ParticleSystem) option" where
  "relocate p pNext s = do {
     moved \<leftarrow> deref (pFree s) s;
     s1 \<leftarrow> assign p (\<lambda>_. moved) s;
     let pNext' = (if pNext = Some (pFree s1) then Some p else pNext);
     x \<leftarrow> deref p s1;
     s2 \<leftarrow> (case p_prev x of
              Some a \<Rightarrow> assign a (p_next_update (\<lambda>_. Some p)) s1
            | None \<Rightarrow> Some (s1\<lparr>pHead := Some p\<rparr>));
     y \<leftarrow> deref p s2;
     s3 \<leftarrow> (case p_next y of
              Some b \<Rightarrow> assign b (p_prev_update (\<lambda>_. Some p)) s2
            | None \<Rightarrow> Some (s2\<lparr>pTail := Some p\<rparr>));
     Some (pNext', s3) }"

definition removeParticle :: "nat \<Rightarrow> ParticleSystem \<Rightarrow> (nat option \<times> ParticleSystem) option" where
  "removeParticle p s = do {
     (pNext, s1) \<leftarrow> unlink p s;
     s2 \<leftarrow> (if pFree s1 = 0 then None else Some (s1\<lparr>pFree := pFree s1 - 1\<rparr>));
     (pNext', s3) \<leftarrow> (if p \<noteq> pFree s2 then relocate p pNext s2 else Some (pNext, s2));
     Some (pNext', s3\<lparr>activeParticles := u32 (activeParticles s3 + 2 ^ 32 - 1)\<rparr>) }"

subsection \<open>Curves\<close>

text \<open>
  The interpolation of \<^verbatim>\<open>update\<close> over the size and the colour control points, and the
  choice of the quad. \<open>color_scale\<close> and \<open>color_add\<close> are the componentwise operators
  of \<^verbatim>\<open>Colorf\<close>. In \<^verbatim>\<open>i + 1\<close> no wrap-around is written out: it would need
  \<^verbatim>\<open>i == SIZE_MAX\<close>, an index no vector has.
\<close>

fun color_scale :: "Colorf \<Rightarrow> real \<Rightarrow> Colorf" where
  "color_scale (Colorf r g b a) k = Colorf (r * k) (g * k) (b * k) (a * k)"

fun color_add :: "Colorf \<Rightarrow> Colorf \<Rightarrow> Colorf" where
  "color_add (Colorf r g b a) (Colorf r' g' b' a') = Colorf (r + r') (g + g') (b + b') (a + a')"

definition size_curve :: "real list \<Rightarrow> real \<Rightarrow> real \<Rightarrow> real \<Rightarrow> real option" where
  "size_curve szs sizeOffset sizeIntervalSize t = do {
     let s = (sizeOffset + t * sizeIntervalSize) * real (size_t_minus1 (length szs));
     i \<leftarrow> to_size_t s;
     let k = (if i = size_t_minus1 (length szs) then i else i + 1);
     let s' = s - real i;
     x \<leftarrow> vec_at szs i;
     y \<leftarrow> vec_at szs k;
     Some (x * (1 - s') + y * s') }"

definition color_curve :: "Colorf list \<Rightarrow> real \<Rightarrow> Colorf option" where
  "color_curve cs t = do {
     let s = t * real (size_t_minus1 (length cs));
     i \<leftarrow> to_size_t s;
     let k = (if i = size_t_minus1 (length cs) then i else i + 1);
     let s' = s - real i;
     x \<leftarrow> vec_at cs i;
     y \<leftarrow> vec_at cs k;
     Some (color_add (color_scale x (1 - s')) (color_scale y s')) }"

definition quad_index :: "nat \<Rightarrow> real \<Rightarrow> nat \<Rightarrow> nat option" where
  "quad_index k t old =
     (if k > 0
      then do {
        let s = t * real k;
        i \<leftarrow> (if s > 0 then to_size_t s else Some 0);
        Some (if i < k then i else k - 1) }
      else Some old)"

definition age :: "Particle \<Rightarrow> real option" where
  \<comment> \<open>\<^verbatim>\<open>t = 1.0f - p->life / p->lifetime\<close>. With \<^verbatim>\<open>lifetime == 0\<close> the quotient is
      infinite or not a number, and so is every \<^verbatim>\<open>s\<close> converted to \<^verbatim>\<open>size_t\<close> below.\<close>
  "age x = (if p_lifetime x = 0 then None else Some (1 - p_life x / p_lifetime x))"

subsection \<open>Creating particles\<close>

definition area_draws :: "ParticleSystem \<Rightarrow> nat" where
  \<comment> \<open>the draws of the \<^verbatim>\<open>switch (areaSpreadDistribution)\<close>\<close>
  "area_draws s = (case areaSpreadDistribution s of
                     DISTRIBUTION_UNIFORM \<Rightarrow> 2 | DISTRIBUTION_NORMAL \<Rightarrow> 2 | _ \<Rightarrow> 0)"

definition initParticle :: "nat \<Rightarrow> float \<Rightarrow> ParticleSystem \<Rightarrow> ParticleSystem option" where
  \<comment> \<open>The draws that are dropped: 7 for the direction, the speed, the two components of
      the linear acceleration, the radial and the tangential acceleration and the
      damping; 3 for the two spins and the rotation.\<close>
  "initParticle p t s = do {
     let (lf, g1) = (if particleLifeMin s = particleLifeMax s then (particleLifeMin s, rng s)
                     else rng_random (particleLifeMin s) (particleLifeMax s) (rng s));
     let g2 = rng_discard (area_draws s) g1;
     let g3 = rng_discard 7 g2;
     let (off, g4) = rng_random 0 (sizeVariation s) g3;
     let (v, g5) = rng_random 0 (sizeVariation s) g4;
     let ivl = (1 - v) - off;
     i \<leftarrow> to_size_t (off - 1 / 2);
     sz \<leftarrow> vec_at (sizes s) ((i * size_t_minus1 (length (sizes s))) mod 2 ^ 64);
     let g6 = rng_discard 3 g5;
     c \<leftarrow> vec_at (colors s) 0;
     assign p (\<lambda>x. x\<lparr>p_life := lf, p_lifetime := lf, p_sizeOffset := off,
                      p_sizeIntervalSize := ivl, p_size := sz, p_color := c,
                      p_quadIndex := 0\<rparr>)
       (s\<lparr>rng := g6\<rparr>) }"

definition addParticle :: "float \<Rightarrow> ParticleSystem \<Rightarrow> ParticleSystem option" where
  "addParticle t s =
     (if isFull s then Some s
      else do {
        let p = pFree s;
        s1 \<leftarrow> initParticle p t (s\<lparr>pFree := pFree s + 1\<rparr>);
        s2 \<leftarrow> (case insertMode s1 of
                 INSERT_MODE_BOTTOM \<Rightarrow> insertBottom p s1
               | INSERT_MODE_RANDOM \<Rightarrow> insertRandom p s1
               | _ \<Rightarrow> insertTop p s1);
        Some (s2\<lparr>activeParticles := u32 (activeParticles s2 + 1)\<rparr>) })"

fun emit_loop :: "nat \<Rightarrow> ParticleSystem \<Rightarrow> ParticleSystem option" where
  "emit_loop 0 s = Some s"
| "emit_loop (Suc num) s = do { s' \<leftarrow> addParticle (Finite 1) s; emit_loop num s' }"

definition emit :: "nat \<Rightarrow> ParticleSystem \<Rightarrow> ParticleSystem option" where
  "emit num s =
     (if \<not> active s then Some s
      else emit_loop (min num (u32 (maxParticles s + 2 ^ 32 - activeParticles s))) s)"

subsection \<open>Life cycle\<close>

definition start :: "ParticleSystem \<Rightarrow> ParticleSystem" where
  "start s = s\<lparr>active := True\<rparr>"

definition stop :: "ParticleSystem \<Rightarrow> ParticleSystem" where
  "stop s = s\<lparr>active := False, life := lifetime s, emitCounter := Finite 0\<rparr>"

definition pause :: "ParticleSystem \<Rightarrow> ParticleSystem" where
  "pause s = s\<lparr>active := False\<rparr>"

definition reset :: "ParticleSystem \<Rightarrow> ParticleSystem" where
  "reset s =
     (if pMem s = None then s
      else s\<lparr>pFree := 0, pHead := None, pTail := None, activeParticles := 0,
             life := lifetime s, emitCounter := Finite 0\<rparr>)"

subsection \<open>The tick\<close>

definition integrate :: "ParticleSystem \<Rightarrow> Particle \<Rightarrow> Particle option" where
  \<comment> \<open>the \<^verbatim>\<open>else\<close> branch of the particle loop, for a particle whose life is already
      decreased\<close>
  "integrate s x = do {
     t \<leftarrow> age x;
     sz \<leftarrow> size_curve (sizes s) (p_sizeOffset x) (p_sizeIntervalSize x) t;
     c \<leftarrow> color_curve (colors s) t;
     q \<leftarrow> quad_index (length (quads s)) t (p_quadIndex x);
     Some (x\<lparr>p_size := sz, p_color := c, p_quadIndex := q\<rparr>) }"

partial_function (option) update_particles ::
  "real \<Rightarrow> nat option \<Rightarrow> ParticleSystem \<Rightarrow> ParticleSystem option" where
  "update_particles dt p s =
     (case p of
        None \<Rightarrow> Some s
      | Some i \<Rightarrow> do {
          s1 \<leftarrow> assign i (\<lambda>x. x\<lparr>p_life := p_life x - dt\<rparr>) s;
          x \<leftarrow> deref i s1;
          if p_life x \<le> 0
          then do { (pn, s2) \<leftarrow> removeParticle i s1; update_particles dt pn s2 }
          else do {
            x' \<leftarrow> integrate s1 x;
            s2 \<leftarrow> assign i (\<lambda>_. x') s1;
            update_particles dt (p_next x') s2 } })"

definition emission_body :: "float \<Rightarrow> float \<Rightarrow> ParticleSystem \<Rightarrow> ParticleSystem option" where
  \<comment> \<open>the body of \<^verbatim>\<open>while (emitCounter > rate)\<close>\<close>
  "emission_body rate elapsed s = do {
     s1 \<leftarrow> addParticle (f_sub (Finite 1) (f_div (f_sub (emitCounter s) rate) elapsed)) s;
     Some (s1\<lparr>emitCounter := f_sub (emitCounter s1) rate\<rparr>) }"

partial_function (option) emission_loop ::
  "float \<Rightarrow> float \<Rightarrow> ParticleSystem \<Rightarrow> ParticleSystem option" where
  "emission_loop rate elapsed s =
     (if f_less rate (emitCounter s)
      then do { s1 \<leftarrow> emission_body rate elapsed s; emission_loop rate elapsed s1 }
      else Some s)"

declare update_particles.simps [code]
declare emission_loop.simps [code]

fun emission_run :: "nat \<Rightarrow> float \<Rightarrow> float \<Rightarrow> ParticleSystem \<Rightarrow> ParticleSystem option" where
  \<comment> \<open>the emission loop cut off after \<open>n\<close> iterations: the state in which it has ended, or
      the state after \<open>n\<close> iterations\<close>
  "emission_run 0 rate elapsed s = Some s"
| "emission_run (Suc n) rate elapsed s =
     (if f_less rate (emitCounter s)
      then do { s1 \<leftarrow> emission_body rate elapsed s; emission_run n rate elapsed s1 }
      else Some s)"

definition emitter_start :: "real \<Rightarrow> ParticleSystem \<Rightarrow> ParticleSystem" where
  \<comment> \<open>\<^verbatim>\<open>emitCounter += dt\<close>\<close>
  "emitter_start dt s = s\<lparr>emitCounter := f_add (emitCounter s) (Finite dt)\<rparr>"

definition emitter_end :: "real \<Rightarrow> ParticleSystem \<Rightarrow> ParticleSystem" where
  \<comment> \<open>\<^verbatim>\<open>life -= dt; if (lifetime != -1 && life < 0) stop();\<close>\<close>
  "emitter_end dt s =
     (let s1 = s\<lparr>life := life s - dt\<rparr>
      in if lifetime s1 \<noteq> - 1 \<and> life s1 < 0 then stop s1 else s1)"

definition update_emitter :: "real \<Rightarrow> ParticleSystem \<Rightarrow> ParticleSystem option" where
  \<comment> \<open>the body of \<^verbatim>\<open>if (active)\<close>\<close>
  "update_emitter dt s = do {
     let rate = f_div (Finite 1) (emissionRate s);
     let s1 = emitter_start dt s;
     let elapsed = f_sub (emitCounter s1) rate;
     s2 \<leftarrow> emission_loop rate elapsed s1;
     Some (emitter_end dt s2) }"

definition update :: "real \<Rightarrow> ParticleSystem \<Rightarrow> ParticleSystem option" where
  "update dt s =
     (if pMem s = None \<or> dt = 0 then Some s
      else do {
        s1 \<leftarrow> update_particles dt (pHead s) s;
        if active s1 then update_emitter dt s1 else Some s1 })"

subsection \<open>Construction and configuration\<close>

definition deleteBuffers :: "ParticleSystem \<Rightarrow> ParticleSystem" where
  "deleteBuffers s = s\<lparr>pMem := None, maxParticles := 0, activeParticles := 0\<rparr>"

definition createBuffers ::
  "(nat \<Rightarrow> Particle) option \<Rightarrow> nat \<Rightarrow> ParticleSystem \<Rightarrow>
     (error \<times> ParticleSystem) + ParticleSystem" where
  \<comment> \<open>\<open>fresh\<close> is what \<^verbatim>\<open>new Particle[size]\<close> returns: the arbitrary content of each of
      the \<open>size'\<close> new particles, or \<open>None\<close> for \<^verbatim>\<open>std::bad_alloc\<close>. An exception is
      \<open>Inl\<close>, with the object as the exception leaves it.\<close>
  "createBuffers fresh size' s =
     (case fresh of
        Some f \<Rightarrow> Inr (s\<lparr>pFree := 0, pMem := Some (map f [0..<size']), maxParticles := u32 size'\<rparr>)
      | None \<Rightarrow> Inl (Out_of_memory, deleteBuffers s))"

definition setBufferSize ::
  "nat \<Rightarrow> (nat \<Rightarrow> Particle) option \<Rightarrow> nat \<Rightarrow> ParticleSystem \<Rightarrow>
     (error \<times> ParticleSystem) + ParticleSystem" where
  \<comment> \<open>\<open>MAX_PARTICLES\<close> is the constant of the header, taken as a parameter.\<close>
  "setBufferSize MAX_PARTICLES fresh size' s =
     (if size' = 0 \<or> size' > MAX_PARTICLES then Inl (Invalid_buffer_size, s)
      else case createBuffers fresh size' (deleteBuffers s) of
             Inl e \<Rightarrow> Inl e
           | Inr s' \<Rightarrow> Inr (reset s'))"

definition new_ParticleSystem ::
  "nat \<Rightarrow> (nat \<Rightarrow> Particle) option \<Rightarrow> RandomGenerator \<Rightarrow> nat \<Rightarrow> error + ParticleSystem" where
  "new_ParticleSystem MAX_PARTICLES fresh g size' =
     (if size' = 0 \<or> size' > MAX_PARTICLES then Inl Invalid_ParticleSystem_size
      else case setBufferSize MAX_PARTICLES fresh size'
             \<lparr>pMem = None, pFree = 0, pHead = None, pTail = None, active = True,
              insertMode = INSERT_MODE_TOP, maxParticles = 0, activeParticles = 0,
              emissionRate = Finite 0, emitCounter = Finite 0,
              areaSpreadDistribution = DISTRIBUTION_NONE, lifetime = - 1, life = 0,
              particleLifeMin = 0, particleLifeMax = 0, sizes = [1],
              sizeVariation = 0, colors = [Colorf 1 1 1 1], quads = [], rng = g\<rparr> of
             Inl (e, _) \<Rightarrow> Inl e
           | Inr s \<Rightarrow> Inr s)"

definition setInsertMode :: "InsertMode \<Rightarrow> ParticleSystem \<Rightarrow> ParticleSystem" where
  "setInsertMode mode s = s\<lparr>insertMode := mode\<rparr>"

definition setEmissionRate ::
  "float \<Rightarrow> ParticleSystem \<Rightarrow> (error \<times> ParticleSystem) + ParticleSystem" where
  "setEmissionRate rate s =
     (if f_less rate (Finite 0) then Inl (Invalid_emission_rate, s)
      else Inr (s\<lparr>emissionRate := rate\<rparr>))"

definition setEmitterLifetime :: "real \<Rightarrow> ParticleSystem \<Rightarrow> ParticleSystem" where
  "setEmitterLifetime l s = s\<lparr>lifetime := l, life := l\<rparr>"

definition setParticleLifetime :: "real \<Rightarrow> real \<Rightarrow> ParticleSystem \<Rightarrow> ParticleSystem" where
  "setParticleLifetime min' max' s =
     (if max' = 0
      then s\<lparr>particleLifeMin := min', particleLifeMax := min'\<rparr>
      else s\<lparr>particleLifeMin := min', particleLifeMax := max'\<rparr>)"

definition setSizes :: "real list \<Rightarrow> ParticleSystem \<Rightarrow> ParticleSystem" where
  "setSizes newSizes s = s\<lparr>sizes := newSizes\<rparr>"

definition setSizeVariation :: "real \<Rightarrow> ParticleSystem \<Rightarrow> ParticleSystem" where
  "setSizeVariation variation s = s\<lparr>sizeVariation := variation\<rparr>"

section \<open>The invariant of the pool\<close>

text \<open>
  The active list is described by the list \<open>xs\<close> of the slots it visits from head to tail.
  \<open>succ_in xs x\<close> and \<open>pred_in xs x\<close> are the neighbours of \<open>x\<close> in \<open>xs\<close>.
\<close>

fun succ_in :: "nat list \<Rightarrow> nat \<Rightarrow> nat option" where
  "succ_in (y # z # zs) x = (if x = y then Some z else succ_in (z # zs) x)"
| "succ_in _ x = None"

fun pred_in :: "nat list \<Rightarrow> nat \<Rightarrow> nat option" where
  "pred_in (y # z # zs) x = (if x = z then Some y else pred_in (z # zs) x)"
| "pred_in _ x = None"

definition first_of :: "nat list \<Rightarrow> nat option" where
  "first_of xs = (case xs of [] \<Rightarrow> None | x # _ \<Rightarrow> Some x)"

definition last_of :: "nat list \<Rightarrow> nat option" where
  "last_of xs = (if xs = [] then None else Some (last xs))"

definition linked :: "Particle list \<Rightarrow> nat option \<Rightarrow> nat list \<Rightarrow> bool" where
  "linked m h xs \<longleftrightarrow>
     h = first_of xs \<and>
     (\<forall>x\<in>set xs. x < length m \<and> p_next (m ! x) = succ_in xs x \<and> p_prev (m ! x) = pred_in xs x)"

text \<open>
  \<^verbatim>\<open>insertRandom\<close> does not set \<^verbatim>\<open>pTail\<close> when it inserts into an empty list, so in
  that mode (\<open>stale = True\<close>) the tail pointer is the last node or still \<^verbatim>\<open>nullptr\<close>.
\<close>

definition tail_ok :: "bool \<Rightarrow> nat option \<Rightarrow> nat list \<Rightarrow> bool" where
  "tail_ok stale t xs \<longleftrightarrow> t = last_of xs \<or> (stale \<and> t = None)"

definition listed :: "bool \<Rightarrow> ParticleSystem \<Rightarrow> nat list \<Rightarrow> bool" where
  "listed stale s xs \<longleftrightarrow>
     (case pMem s of
        None \<Rightarrow> False
      | Some m \<Rightarrow> distinct xs \<and> linked m (pHead s) xs \<and> tail_ok stale (pTail s) xs)"

definition pool_inv :: "ParticleSystem \<Rightarrow> nat list \<Rightarrow> bool" where
  "pool_inv s xs \<longleftrightarrow>
     listed (insertMode s = INSERT_MODE_RANDOM) s xs \<and>
     set xs = {0..<pFree s} \<and>
     pFree s = activeParticles s \<and> activeParticles s \<le> maxParticles s \<and>
     maxParticles s < 2 ^ 32 \<and>
     map_option length (pMem s) = Some (maxParticles s)"

text \<open>
  What an operation on the list leaves alone: \<open>frame\<close> blanks the links, so
  \<open>frame s' = frame s\<close> says that \<open>s'\<close> is \<open>s\<close> up to \<^verbatim>\<open>prev\<close>, \<^verbatim>\<open>next\<close>,
  \<^verbatim>\<open>pHead\<close> and \<^verbatim>\<open>pTail\<close>.
\<close>

definition payload :: "Particle \<Rightarrow> Particle" where
  "payload x = x\<lparr>p_prev := None, p_next := None\<rparr>"

definition frame :: "ParticleSystem \<Rightarrow> ParticleSystem" where
  "frame s = s\<lparr>pMem := map_option (map payload) (pMem s), pHead := None, pTail := None\<rparr>"

subsection \<open>Neighbours in a list\<close>

lemma first_of_simps [simp]: "first_of [] = None" "first_of (x # xs) = Some x"
  by (simp_all add: first_of_def)

lemma last_of_simps [simp]:
  "last_of [] = None" "last_of [x] = Some x" "last_of (xs @ [x]) = Some x"
  by (simp_all add: last_of_def)

lemma last_of_Cons [simp]: "last_of (x # xs) = (if xs = [] then Some x else last_of xs)"
  by (simp add: last_of_def)

lemma first_of_append [simp]: "first_of (us @ vs) = (if us = [] then first_of vs else first_of us)"
  by (cases us) simp_all

lemma last_of_append [simp]: "last_of (us @ vs) = (if vs = [] then last_of us else last_of vs)"
  by (simp add: last_of_def)

lemma first_of_eq_Some: "first_of xs = Some x \<longleftrightarrow> (\<exists>ys. xs = x # ys)"
  by (cases xs) auto

lemma last_of_eq_Some: "last_of xs = Some x \<longleftrightarrow> (\<exists>ys. xs = ys @ [x])"
  by (cases xs rule: rev_cases) (auto simp: last_of_def)

lemma first_of_eq_None [simp]: "first_of xs = None \<longleftrightarrow> xs = []"
  by (cases xs) auto

lemma last_of_eq_None [simp]: "last_of xs = None \<longleftrightarrow> xs = []"
  by (simp add: last_of_def)

lemma first_of_ex [simp]: "(\<exists>y. first_of xs = Some y) \<longleftrightarrow> xs \<noteq> []"
  by (cases xs) auto

lemma last_of_ex [simp]: "(\<exists>y. last_of xs = Some y) \<longleftrightarrow> xs \<noteq> []"
  by (simp add: last_of_def)

lemma first_of_in_set: "first_of xs = Some x \<Longrightarrow> x \<in> set xs"
  by (auto simp: first_of_eq_Some)

lemma last_of_in_set: "last_of xs = Some x \<Longrightarrow> x \<in> set xs"
  by (auto simp: last_of_eq_Some)

lemma succ_in_Cons: "succ_in (y # ys) x = (if x = y then first_of ys else succ_in ys x)"
  by (cases ys) simp_all

lemma pred_in_Cons: "pred_in (y # ys) x = (if first_of ys = Some x then Some y else pred_in ys x)"
  by (cases ys) auto

lemma succ_in_notin [simp]: "x \<notin> set xs \<Longrightarrow> succ_in xs x = None"
  by (induction xs x rule: succ_in.induct) auto

lemma pred_in_notin [simp]: "x \<notin> set xs \<Longrightarrow> pred_in xs x = None"
  by (induction xs x rule: pred_in.induct) auto

lemma succ_in_in_set: "succ_in xs x = Some y \<Longrightarrow> x \<in> set xs \<and> y \<in> set xs"
  by (induction xs x rule: succ_in.induct) (auto split: if_splits)

lemma pred_in_in_set: "pred_in xs x = Some y \<Longrightarrow> x \<in> set xs \<and> y \<in> set xs"
  by (induction xs x rule: pred_in.induct) (auto split: if_splits)

lemma pred_in_first: "distinct xs \<Longrightarrow> first_of xs = Some x \<Longrightarrow> pred_in xs x = None"
  by (cases xs) (auto simp: pred_in_Cons dest: first_of_in_set pred_in_notin)

lemma succ_in_last: "distinct xs \<Longrightarrow> last_of xs = Some x \<Longrightarrow> succ_in xs x = None"
  by (induction xs) (auto simp: succ_in_Cons last_of_Cons dest: last_of_in_set split: if_splits)

lemma succ_in_append:
  "distinct us \<Longrightarrow> succ_in (us @ vs) x =
     (if x \<in> set us then (if last_of us = Some x then first_of vs else succ_in us x)
      else succ_in vs x)"
proof (induction us)
  case Nil
  then show ?case by simp
next
  case (Cons u us)
  then show ?case
    by (auto simp: succ_in_Cons last_of_Cons first_of_append dest: last_of_in_set)
qed

lemma pred_in_append:
  "distinct (us @ vs) \<Longrightarrow> pred_in (us @ vs) x =
     (if x \<in> set us then pred_in us x
      else if first_of vs = Some x then last_of us else pred_in vs x)"
proof (induction us)
  case Nil
  then show ?case by (simp add: pred_in_first)
next
  case (Cons u us)
  then show ?case
    by (auto simp: pred_in_Cons last_of_Cons first_of_append pred_in_first pred_in_notin dest: first_of_in_set)
qed

lemma succ_in_self: "distinct xs \<Longrightarrow> succ_in xs x \<noteq> Some x"
  by (induction xs x rule: succ_in.induct) (auto dest: succ_in_in_set)

lemma pred_in_self: "distinct xs \<Longrightarrow> pred_in xs x \<noteq> Some x"
  by (induction xs x rule: pred_in.induct) (auto dest: pred_in_in_set)

lemma first_of_map: "first_of (map f xs) = map_option f (first_of xs)"
  by (cases xs) auto

lemma last_of_map: "last_of (map f xs) = map_option f (last_of xs)"
  by (auto simp: last_of_def last_map)

lemma succ_in_map:
  "inj_on f (insert x (set xs)) \<Longrightarrow> succ_in (map f xs) (f x) = map_option f (succ_in xs x)"
proof (induction xs)
  case Nil
  then show ?case by simp
next
  case (Cons y ys)
  have "inj_on f (insert x (set ys))"
    using Cons.prems by (rule inj_on_subset) auto
  then have "succ_in (map f ys) (f x) = map_option f (succ_in ys x)"
    by (rule Cons.IH)
  moreover have "f x = f y \<longleftrightarrow> x = y"
    using Cons.prems by (auto simp: inj_on_def)
  ultimately show ?case
    by (simp add: succ_in_Cons first_of_map)
qed

lemma pred_in_map:
  "inj_on f (insert x (set xs)) \<Longrightarrow> pred_in (map f xs) (f x) = map_option f (pred_in xs x)"
proof (induction xs)
  case Nil
  then show ?case by simp
next
  case (Cons y ys)
  have "inj_on f (insert x (set ys))"
    using Cons.prems by (rule inj_on_subset) auto
  then have "pred_in (map f ys) (f x) = map_option f (pred_in ys x)"
    by (rule Cons.IH)
  moreover have "first_of (map f ys) = Some (f x) \<longleftrightarrow> first_of ys = Some x"
  proof (cases ys)
    case Nil
    then show ?thesis by simp
  next
    case (Cons z zs)
    then show ?thesis using Cons.prems by (auto simp: inj_on_def)
  qed
  ultimately show ?case
    by (simp add: pred_in_Cons)
qed

subsection \<open>The list operations keep the list\<close>

lemma payload_simps [simp]:
  "payload (x\<lparr>p_prev := a\<rparr>) = payload x"
  "payload (x\<lparr>p_next := b\<rparr>) = payload x"
  by (simp_all add: payload_def)

lemma map_payload_update:
  "i < length m \<Longrightarrow> payload v = payload (m ! i) \<Longrightarrow> map payload (m[i := v]) = map payload m"
  by (simp add: map_update list_update_same_conv)

lemma listedD:
  assumes "listed w s xs"
  obtains m where "pMem s = Some m" "distinct xs" "linked m (pHead s) xs" "tail_ok w (pTail s) xs"
  using assms by (auto simp: listed_def split: option.splits)

lemma tail_ok_weaken: "tail_ok False t xs \<Longrightarrow> tail_ok w t xs"
  by (simp add: tail_ok_def)

lemma listed_weaken: "listed False s xs \<Longrightarrow> listed w s xs"
  by (auto simp: listed_def tail_ok_def split: option.splits)

lemma insertTop_listed:
  assumes "listed False s xs" "p \<notin> set xs" "p < length (the (pMem s))"
  shows "\<exists>s'. insertTop p s = Some s' \<and> listed False s' (xs @ [p]) \<and> frame s' = frame s"
proof -
  obtain m where m: "pMem s = Some m" "distinct xs" "linked m (pHead s) xs"
     "tail_ok False (pTail s) xs"
    using assms(1) by (rule listedD)
  have p: "p < length m" using assms(3) m by simp
  show ?thesis
  proof (cases xs rule: rev_cases)
    case Nil
    then show ?thesis using m p
      by (simp add: insertTop_def assign_def listed_def linked_def tail_ok_def frame_def
          map_payload_update)
  next
    case (snoc ys t)
    then have t: "t < length m" "t \<noteq> p" using m assms(2) by (auto simp: linked_def)
    show ?thesis using m p t snoc assms(2)
      by (auto simp: insertTop_def assign_def listed_def linked_def tail_ok_def frame_def
          map_payload_update nth_list_update succ_in_append pred_in_append)
  qed
qed

lemma insertBottom_listed:
  assumes "listed False s xs" "p \<notin> set xs" "p < length (the (pMem s))"
  shows "\<exists>s'. insertBottom p s = Some s' \<and> listed False s' (p # xs) \<and> frame s' = frame s"
proof -
  obtain m where m: "pMem s = Some m" "distinct xs" "linked m (pHead s) xs"
     "tail_ok False (pTail s) xs"
    using assms(1) by (rule listedD)
  have p: "p < length m" using assms(3) m by simp
  show ?thesis
  proof (cases xs)
    case Nil
    then show ?thesis using m p
      by (simp add: insertBottom_def assign_def listed_def linked_def tail_ok_def frame_def
          map_payload_update)
  next
    case (Cons h ys)
    then have h: "h < length m" "h \<noteq> p" using m assms(2) by (auto simp: linked_def)
    show ?thesis using m p h Cons assms(2)
      by (auto simp: insertBottom_def assign_def listed_def linked_def tail_ok_def frame_def
          map_payload_update nth_list_update succ_in_Cons pred_in_Cons
          dest: first_of_in_set last_of_in_set)
  qed
qed

lemma insertRandom_listed:
  assumes "listed w s xs" "set xs = {0..<activeParticles s}" "p \<notin> set xs"
    and "p < length (the (pMem s))"
  shows "\<exists>s' ys. insertRandom p s = Some s' \<and> listed True s' ys \<and> set ys = insert p (set xs) \<and>
           frame s' = frame (s\<lparr>rng := snd (rng_rand (rng s))\<rparr>)"
proof -
  obtain m where m: "pMem s = Some m" "distinct xs" "linked m (pHead s) xs"
     "tail_ok w (pTail s) xs"
    using assms(1) by (rule listedD)
  have p: "p < length m" using assms(4) m by simp
  define pos where "pos = int_draws (rng s) (drawn (rng s)) mod (activeParticles s + 1)"
  show ?thesis
  proof (cases "pos = activeParticles s")
    case True
    show ?thesis
    proof (cases xs)
      case Nil
      then show ?thesis using m p True
        by (auto simp: insertRandom_def rng_rand_def pos_def assign_def listed_def linked_def
            tail_ok_def frame_def map_payload_update intro!: exI[of _ "[p]"])
    next
      case (Cons h ys)
      then have h: "h < length m" "h \<noteq> p" using m assms(3) by (auto simp: linked_def)
      have "set (p # xs) = insert p (set xs)" by simp
      then show ?thesis using m p h Cons assms(3) True
        by (auto simp: insertRandom_def rng_rand_def pos_def assign_def listed_def linked_def
            tail_ok_def frame_def map_payload_update nth_list_update succ_in_Cons pred_in_Cons
            dest: first_of_in_set last_of_in_set intro!: exI[of _ "p # xs"])
    qed
  next
    case False
    moreover have "pos < activeParticles s + 1" unfolding pos_def by (rule mod_less_divisor) simp
    ultimately have "pos < activeParticles s" by linarith
    then have "pos \<in> set xs" using assms(2) by simp
    then obtain us vs where xs: "xs = us @ pos # vs" by (auto dest: split_list)
    have pos: "pos < length m" "pos \<noteq> p" using m(3) assms(3) xs by (auto simp: linked_def)
    have nx: "p_next (m ! pos) = first_of vs"
      using m xs by (auto simp: linked_def succ_in_append succ_in_Cons)
    show ?thesis
    proof (cases vs)
      case Nil
      then show ?thesis using m p pos xs nx assms(3) False unfolding pos_def
        by (auto simp: insertRandom_def rng_rand_def Let_def assign_def deref_def
            listed_def linked_def tail_ok_def frame_def map_payload_update nth_list_update succ_in_append
            pred_in_append succ_in_Cons pred_in_Cons
            dest: first_of_in_set last_of_in_set
            intro!: exI[of _ "us @ [int_draws (rng s) (drawn (rng s)) mod (activeParticles s + 1), p]"])
    next
      case (Cons b ws)
      then have b: "b < length m" "b \<noteq> p" "b \<noteq> pos"
        using m xs assms(3) by (auto simp: linked_def)
      show ?thesis using m p pos xs nx assms(3) False Cons b unfolding pos_def
        by (auto simp: insertRandom_def rng_rand_def Let_def assign_def deref_def
            listed_def linked_def tail_ok_def frame_def map_payload_update nth_list_update succ_in_append
            pred_in_append succ_in_Cons pred_in_Cons
            dest: first_of_in_set last_of_in_set
            intro!: exI[of _ "us @ (int_draws (rng s) (drawn (rng s)) mod (activeParticles s + 1)) # p # b # ws"])
    qed
  qed
qed

lemma unlink_listed:
  assumes "listed w s (us @ p # vs)"
  shows "\<exists>s'. unlink p s = Some (first_of vs, s') \<and> listed (w \<and> vs \<noteq> []) s' (us @ vs) \<and>
           frame s' = frame s"
proof -
  obtain m where m: "pMem s = Some m" "distinct (us @ p # vs)" "linked m (pHead s) (us @ p # vs)"
     "tail_ok w (pTail s) (us @ p # vs)"
    using assms(1) by (rule listedD)
  have p: "p < length m" "p_next (m ! p) = first_of vs" "p_prev (m ! p) = last_of us"
    using m by (auto simp: linked_def succ_in_append pred_in_append succ_in_Cons pred_in_Cons
        dest: first_of_in_set last_of_in_set)
  show ?thesis
  proof (cases us rule: rev_cases)
    case Nil
    note us = Nil
    show ?thesis
    proof (cases vs)
      case Nil
      then show ?thesis using m p us
        by (auto simp: unlink_def assign_def deref_def listed_def linked_def tail_ok_def frame_def)
    next
      case (Cons b ws)
      then have b: "b < length m" "b \<noteq> p" using m by (auto simp: linked_def)
      show ?thesis using m p us Cons b
        by (auto simp: unlink_def assign_def deref_def listed_def linked_def tail_ok_def frame_def
            map_payload_update nth_list_update succ_in_Cons pred_in_Cons
            dest: first_of_in_set last_of_in_set)
    qed
  next
    case (snoc ts a)
    note us = snoc
    then have a: "a < length m" "a \<noteq> p" using m by (auto simp: linked_def)
    show ?thesis
    proof (cases vs)
      case Nil
      then show ?thesis using m p us a
        by (auto simp: unlink_def assign_def deref_def listed_def linked_def tail_ok_def frame_def
            map_payload_update nth_list_update succ_in_append pred_in_append succ_in_Cons pred_in_Cons
            dest: first_of_in_set last_of_in_set)
    next
      case (Cons b ws)
      then have b: "b < length m" "b \<noteq> p" "b \<noteq> a" using m us by (auto simp: linked_def)
      show ?thesis using m p us a Cons b
        by (auto simp: unlink_def assign_def deref_def listed_def linked_def tail_ok_def frame_def
            map_payload_update nth_list_update succ_in_append pred_in_append succ_in_Cons pred_in_Cons
            dest: first_of_in_set last_of_in_set)
    qed
  qed
qed

definition moved :: "nat \<Rightarrow> nat \<Rightarrow> nat \<Rightarrow> nat" where
  "moved q p x = (if x = q then p else x)"

lemma map_moved_notin: "q \<notin> set zs \<Longrightarrow> map (moved q p) zs = zs"
  by (induction zs) (auto simp: moved_def)

lemma payload_update_id:
  "i < length m \<Longrightarrow> i \<noteq> p \<Longrightarrow>
   (map payload m)[p := v, i := payload (m ! i)] = (map payload m)[p := v]"
  by (simp add: list_update_same_conv)

lemma relocate_listed:
  assumes "listed w s ys" "pFree s \<in> set ys" "p \<notin> set ys" "p < length (the (pMem s))"
  shows "\<exists>s'. relocate p pn s = Some (map_option (moved (pFree s) p) pn, s') \<and>
           listed w s' (map (moved (pFree s) p) ys) \<and>
           frame s' = frame (s\<lparr>pMem := map_option (\<lambda>m. m[p := m ! pFree s]) (pMem s)\<rparr>)"
proof -
  obtain m where m: "pMem s = Some m" "distinct ys" "linked m (pHead s) ys"
     "tail_ok w (pTail s) ys"
    using assms(1) by (rule listedD)
  define q where "q = pFree s"
  obtain us vs where ys: "ys = us @ q # vs" using assms(2) by (auto simp: q_def dest: split_list)
  have map: "map (moved q p) ys = us @ p # vs"
    using m(2) ys by (simp add: map_moved_notin) (simp add: moved_def)
  have pn: "map_option (moved q p) pn = (if pn = Some q then Some p else pn)"
    by (cases pn) (auto simp: moved_def)
  have p: "p < length m" "p \<noteq> q" "p \<notin> set us" "p \<notin> set vs" using assms(3,4) m ys by auto
  have q: "q < length m" "p_next (m ! q) = first_of vs" "p_prev (m ! q) = last_of us"
    using m ys by (auto simp: linked_def succ_in_append pred_in_append succ_in_Cons pred_in_Cons
        dest: first_of_in_set last_of_in_set)
  have fr: "frame (s\<lparr>pMem := Some m', pHead := h, pTail := t\<rparr>) = frame (s\<lparr>pMem := Some (m[p := m ! q])\<rparr>)"
    if "map payload m' = map payload (m[p := m ! q])" for m' h t
    using that by (simp add: frame_def)
  show ?thesis unfolding q_def[symmetric] map pn
  proof (cases us rule: rev_cases)
    case Nil
    note us = Nil
    show "\<exists>s'. relocate p pn s = Some (if pn = Some q then Some p else pn, s') \<and>
           listed w s' (us @ p # vs) \<and>
           frame s' = frame (s\<lparr>pMem := map_option (\<lambda>m. m[p := m ! q]) (pMem s)\<rparr>)"
    proof (cases vs)
      case Nil
      then show ?thesis using m p q us ys
        by (auto simp: relocate_def q_def[symmetric] assign_def deref_def listed_def linked_def tail_ok_def frame_def)
    next
      case (Cons b ws)
      then have b: "b < length m" "b \<noteq> p" "b \<noteq> q" using m ys p by (auto simp: linked_def)
      show ?thesis using m p q us ys Cons b
        by (auto simp: relocate_def q_def[symmetric] assign_def deref_def listed_def linked_def tail_ok_def frame_def
            map_payload_update nth_list_update succ_in_Cons pred_in_Cons map_update payload_update_id
            dest: first_of_in_set last_of_in_set)
    qed
  next
    case (snoc ts a)
    note us = snoc
    then have a: "a < length m" "a \<noteq> p" "a \<noteq> q" using m ys p by (auto simp: linked_def)
    show "\<exists>s'. relocate p pn s = Some (if pn = Some q then Some p else pn, s') \<and>
           listed w s' (us @ p # vs) \<and>
           frame s' = frame (s\<lparr>pMem := map_option (\<lambda>m. m[p := m ! q]) (pMem s)\<rparr>)"
    proof (cases vs)
      case Nil
      then show ?thesis using m p q us ys a
        by (auto simp: relocate_def q_def[symmetric] assign_def deref_def listed_def linked_def tail_ok_def frame_def
            map_payload_update nth_list_update succ_in_append pred_in_append succ_in_Cons pred_in_Cons map_update payload_update_id
            dest: first_of_in_set last_of_in_set)
    next
      case (Cons b ws)
      then have b: "b < length m" "b \<noteq> p" "b \<noteq> q" "b \<noteq> a" using m ys us p by (auto simp: linked_def)
      show ?thesis using m p q us ys a Cons b
        by (auto simp: relocate_def q_def[symmetric] assign_def deref_def listed_def linked_def tail_ok_def frame_def
            map_payload_update nth_list_update succ_in_append pred_in_append succ_in_Cons pred_in_Cons map_update payload_update_id
            dest: first_of_in_set last_of_in_set)
    qed
  qed
qed

lemma frame_fields:
  assumes "frame s' = frame s"
  shows "pFree s' = pFree s" "activeParticles s' = activeParticles s"
    "maxParticles s' = maxParticles s" "insertMode s' = insertMode s"
    "map_option length (pMem s') = map_option length (pMem s)"
    "active s' = active s" "emissionRate s' = emissionRate s" "emitCounter s' = emitCounter s"
    "lifetime s' = lifetime s" "life s' = life s"
    "particleLifeMin s' = particleLifeMin s" "particleLifeMax s' = particleLifeMax s"
    "sizes s' = sizes s" "sizeVariation s' = sizeVariation s" "colors s' = colors s"
    "quads s' = quads s" "rng s' = rng s"
proof -
  have f: "F s' = F s" if "\<And>t. F (frame t) = F t" for F :: "ParticleSystem \<Rightarrow> 'a"
    using arg_cong[OF assms, of F] that by simp
  show "pFree s' = pFree s" by (rule f) (simp add: frame_def)
  show "activeParticles s' = activeParticles s" by (rule f) (simp add: frame_def)
  show "maxParticles s' = maxParticles s" by (rule f) (simp add: frame_def)
  show "insertMode s' = insertMode s" by (rule f) (simp add: frame_def)
  show "active s' = active s" by (rule f) (simp add: frame_def)
  show "emissionRate s' = emissionRate s" by (rule f) (simp add: frame_def)
  show "emitCounter s' = emitCounter s" by (rule f) (simp add: frame_def)
  show "lifetime s' = lifetime s" by (rule f) (simp add: frame_def)
  show "life s' = life s" by (rule f) (simp add: frame_def)
  show "particleLifeMin s' = particleLifeMin s" by (rule f) (simp add: frame_def)
  show "particleLifeMax s' = particleLifeMax s" by (rule f) (simp add: frame_def)
  show "sizes s' = sizes s" by (rule f) (simp add: frame_def)
  show "sizeVariation s' = sizeVariation s" by (rule f) (simp add: frame_def)
  show "colors s' = colors s" by (rule f) (simp add: frame_def)
  show "quads s' = quads s" by (rule f) (simp add: frame_def)
  show "rng s' = rng s" by (rule f) (simp add: frame_def)
  have "map_option length (pMem (frame s')) = map_option length (pMem (frame s))"
    using assms by simp
  then show "map_option length (pMem s') = map_option length (pMem s)"
    by (simp add: frame_def option.map_comp comp_def)
qed

lemma frame_payload:
  assumes "frame s' = frame s" "pMem s = Some m"
  shows "\<exists>m'. pMem s' = Some m' \<and> length m' = length m \<and>
           (\<forall>i<length m. payload (m' ! i) = payload (m ! i))"
proof -
  have "map_option (map payload) (pMem s') = Some (map payload m)"
    using arg_cong[OF assms(1), of pMem] assms(2) by (simp add: frame_def)
  then obtain m' where m': "pMem s' = Some m'" "map payload m' = map payload m"
    by auto
  have len: "length m' = length m" using m'(2) by (rule map_eq_imp_length_eq)
  have "payload (m' ! i) = payload (m ! i)" if "i < length m" for i
    using m'(2) that len by (metis nth_map)
  with m'(1) len show ?thesis by simp
qed

lemma listed_update [simp]:
  "listed w (s\<lparr>pFree := a\<rparr>) xs = listed w s xs"
  "listed w (s\<lparr>activeParticles := b\<rparr>) xs = listed w s xs"
  "listed w (s\<lparr>emitCounter := c\<rparr>) xs = listed w s xs"
  "listed w (s\<lparr>life := d\<rparr>) xs = listed w s xs"
  "listed w (s\<lparr>active := e\<rparr>) xs = listed w s xs"
  "listed w (s\<lparr>rng := g\<rparr>) xs = listed w s xs"
  by (simp_all add: listed_def split: option.splits)

lemma u32_dec:
  assumes "0 < n" "n < 2 ^ 32"
  shows "u32 (n + 2 ^ 32 - 1) = n - 1"
proof -
  have "n + 2 ^ 32 - 1 = 2 ^ 32 + (n - 1)" using assms(1) by simp
  then have "u32 (n + 2 ^ 32 - 1) = (2 ^ 32 + (n - 1)) mod 2 ^ 32" by (simp only: u32_def)
  also have "\<dots> = (n - 1) mod 2 ^ 32" by (rule mod_add_self1)
  also have "\<dots> = n - 1" using assms(2) by (intro mod_less) simp
  finally show ?thesis .
qed

lemma u32_id: "n < 2 ^ 32 \<Longrightarrow> u32 n = n"
  by (simp add: u32_def)

lemma set_moved:
  assumes "set (us @ p # vs) = {0..<n}" "distinct (us @ p # vs)"
  shows "set (map (moved (n - 1) p) (us @ vs)) = {0..<n - 1}"
proof -
  have a: "set us \<union> set vs = {0..<n} - {p}" using assms by auto
  have p: "p < n" using assms(1) by auto
  have "moved (n - 1) p ` ({0..<n} - {p}) = {0..<n - 1}"
  proof (cases "p = n - 1")
    case True
    then show ?thesis using p by (auto simp: moved_def image_def)
  next
    case False
    then have "p < n - 1" using p by simp
    then show ?thesis
      by (auto simp: moved_def image_def)
  qed
  then show ?thesis using a by (simp add: image_Un[symmetric])
qed


lemma frame_upd:
  "frame (t\<lparr>pFree := a\<rparr>) = (frame t)\<lparr>pFree := a\<rparr>"
  "frame (t\<lparr>activeParticles := b\<rparr>) = (frame t)\<lparr>activeParticles := b\<rparr>"
  "frame (t\<lparr>rng := g\<rparr>) = (frame t)\<lparr>rng := g\<rparr>"
  "frame (t\<lparr>emitCounter := c\<rparr>) = (frame t)\<lparr>emitCounter := c\<rparr>"
  "frame (t\<lparr>pMem := Some M\<rparr>) = (frame t)\<lparr>pMem := Some (map payload M)\<rparr>"
  by (cases t; simp add: frame_def)+

lemma removeParticle_pool:
  assumes "pool_inv s (us @ p # vs)"
  shows "\<exists>s'. removeParticle p s = Some (map_option (moved (pFree s - 1) p) (first_of vs), s') \<and>
           pool_inv s' (map (moved (pFree s - 1) p) (us @ vs)) \<and>
           listed (insertMode s = INSERT_MODE_RANDOM \<and> vs \<noteq> []) s'
             (map (moved (pFree s - 1) p) (us @ vs)) \<and>
           frame s' = frame (s\<lparr>pMem := map_option (\<lambda>m. m[p := m ! (pFree s - 1)]) (pMem s),
                                pFree := pFree s - 1, activeParticles := activeParticles s - 1\<rparr>)"
proof -
  define w where "w = (insertMode s = INSERT_MODE_RANDOM)"
  define q where "q = pFree s - 1"
  have inv: "listed w s (us @ p # vs)" "set (us @ p # vs) = {0..<pFree s}"
    "pFree s = activeParticles s" "activeParticles s \<le> maxParticles s" "maxParticles s < 2 ^ 32"
    "map_option length (pMem s) = Some (maxParticles s)"
    using assms by (simp_all add: pool_inv_def w_def)
  obtain m where m: "pMem s = Some m" "distinct (us @ p # vs)"
    using inv(1) by (rule listedD)
  have "p \<in> {0..<pFree s}" unfolding inv(2)[symmetric] by simp
  then have pf: "p < pFree s" "0 < pFree s" by auto
  define w' where "w' = (w \<and> vs \<noteq> [])"
  obtain s1 where s1: "unlink p s = Some (first_of vs, s1)" "listed w' s1 (us @ vs)"
    "frame s1 = frame s"
    using unlink_listed[OF inv(1)] unfolding w'_def by blast
  have weak: "listed w t zs" if "listed w' t zs" for t zs
    using that by (auto simp: listed_def tail_ok_def w'_def split: option.splits)
  note f1 = frame_fields[OF s1(3)]
  obtain m1 where m1: "pMem s1 = Some m1" "length m1 = length m"
    "\<forall>i<length m. payload (m1 ! i) = payload (m ! i)"
    using frame_payload[OF s1(3) m(1)] by blast
  define s2 where "s2 = s1\<lparr>pFree := q\<rparr>"
  have step2: "(if pFree s1 = 0 then None else Some (s1\<lparr>pFree := pFree s1 - 1\<rparr>)) = Some s2"
    using pf f1(1) by (simp add: s2_def q_def)
  have len: "length m = maxParticles s" using inv(6) m(1) by simp
  have plen: "p < length m" using pf inv(3,4) len by simp
  have fin: "u32 (activeParticles s + 2 ^ 32 - 1) = activeParticles s - 1"
    using pf inv(3,4,5) by (intro u32_dec) simp_all
  have set': "set (map (moved q p) (us @ vs)) = {0..<q}"
    unfolding q_def using inv(2) m(2) by (rule set_moved)
  show ?thesis
  proof (cases "p = q")
    case True
    have id: "map (moved q p) zs = zs" for zs
      using True by (induction zs) (auto simp: moved_def)
    have id': "map_option (moved q p) z = z" for z
      using True by (cases z) (auto simp: moved_def)
    have "removeParticle p s = Some (first_of vs, s2\<lparr>activeParticles := activeParticles s - 1\<rparr>)"
      using s1(1) step2 True fin f1(2) by (simp add: removeParticle_def s2_def)
    moreover have "pool_inv (s2\<lparr>activeParticles := activeParticles s - 1\<rparr>) (us @ vs)"
      unfolding pool_inv_def
    proof (intro conjI)
      show "listed (insertMode (s2\<lparr>activeParticles := activeParticles s - 1\<rparr>) = INSERT_MODE_RANDOM)
              (s2\<lparr>activeParticles := activeParticles s - 1\<rparr>) (us @ vs)"
        using weak[OF s1(2)] f1(4) by (simp add: s2_def w_def)
      show "set (us @ vs) = {0..<pFree (s2\<lparr>activeParticles := activeParticles s - 1\<rparr>)}"
        using set' by (simp add: s2_def id)
      show "pFree (s2\<lparr>activeParticles := activeParticles s - 1\<rparr>) =
              activeParticles (s2\<lparr>activeParticles := activeParticles s - 1\<rparr>)"
        using inv(3) by (simp add: s2_def q_def)
      show "activeParticles (s2\<lparr>activeParticles := activeParticles s - 1\<rparr>)
              \<le> maxParticles (s2\<lparr>activeParticles := activeParticles s - 1\<rparr>)"
        using inv(4) f1(3) by (simp add: s2_def)
      show "maxParticles (s2\<lparr>activeParticles := activeParticles s - 1\<rparr>) < 2 ^ 32"
        using inv(5) f1(3) by (simp add: s2_def)
      show "map_option length (pMem (s2\<lparr>activeParticles := activeParticles s - 1\<rparr>)) =
              Some (maxParticles (s2\<lparr>activeParticles := activeParticles s - 1\<rparr>))"
        using inv(6) f1(3,5) by (simp add: s2_def)
    qed
    moreover have "frame (s2\<lparr>activeParticles := activeParticles s - 1\<rparr>) =
       frame (s\<lparr>pMem := map_option (\<lambda>m. m[p := m ! q]) (pMem s), pFree := q,
                activeParticles := activeParticles s - 1\<rparr>)"
    proof -
      have "m[p := m ! q] = m" using True by simp
      moreover have "(frame s)\<lparr>pMem := Some (map payload m)\<rparr> = frame s"
        using m(1) by (cases s) (simp add: frame_def)
      ultimately show ?thesis using m(1) s1(3) by (simp add: s2_def frame_upd)
    qed
    moreover have "listed w' (s2\<lparr>activeParticles := activeParticles s - 1\<rparr>) (us @ vs)"
      using s1(2) by (simp add: s2_def)
    ultimately show ?thesis unfolding q_def[symmetric] w'_def w_def by (simp add: id id')
  next
    case False
    have l2: "listed w' s2 (us @ vs)" using s1(2) by (simp add: s2_def)
    have q2: "pFree s2 = q" by (simp add: s2_def)
    have "q \<in> set (us @ p # vs)" using inv(2) pf by (simp add: q_def)
    then have qin: "pFree s2 \<in> set (us @ vs)" using False q2 by auto
    have pnot: "p \<notin> set (us @ vs)" using m(2) by auto
    have plen2: "p < length (the (pMem s2))" using plen m1 by (simp add: s2_def)
    obtain s3 where s3: "relocate p (first_of vs) s2 = Some (map_option (moved q p) (first_of vs), s3)"
      "listed w' s3 (map (moved q p) (us @ vs))"
      "frame s3 = frame (s2\<lparr>pMem := map_option (\<lambda>m. m[p := m ! q]) (pMem s2)\<rparr>)"
      using relocate_listed[OF l2 qin pnot plen2, of "first_of vs"] unfolding q2 by blast
    have fr2: "frame (s2\<lparr>pMem := map_option (\<lambda>m. m[p := m ! q]) (pMem s2)\<rparr>) =
       frame (s\<lparr>pMem := map_option (\<lambda>m. m[p := m ! q]) (pMem s), pFree := q\<rparr>)"
    proof -
      have qlen: "q < length m" using pf inv(3,4) len by (simp add: q_def)
      have "map payload (m1[p := m1 ! q]) = map payload (m[p := m ! q])"
        using m1 plen qlen by (auto simp: list_eq_iff_nth_eq nth_list_update)
      moreover have "(frame s)\<lparr>pFree := q, pMem := x\<rparr> = (frame s)\<lparr>pMem := x, pFree := q\<rparr>" for x
        by (cases s) (simp add: frame_def)
      ultimately show ?thesis using m(1) m1(1) s1(3) by (simp add: s2_def frame_upd)
    qed
    note f3 = frame_fields[OF s3(3)[unfolded fr2]]
    have "removeParticle p s = Some (map_option (moved q p) (first_of vs),
        s3\<lparr>activeParticles := activeParticles s - 1\<rparr>)"
      using s1(1) step2 False fin s3(1) f3(2)
      by (simp add: removeParticle_def q2)
    moreover have "pool_inv (s3\<lparr>activeParticles := activeParticles s - 1\<rparr>) (map (moved q p) (us @ vs))"
      unfolding pool_inv_def
    proof (intro conjI)
      show "listed (insertMode (s3\<lparr>activeParticles := activeParticles s - 1\<rparr>) = INSERT_MODE_RANDOM)
              (s3\<lparr>activeParticles := activeParticles s - 1\<rparr>) (map (moved q p) (us @ vs))"
        using weak[OF s3(2)] f3(4) by (simp add: w_def)
      show "set (map (moved q p) (us @ vs)) = {0..<pFree (s3\<lparr>activeParticles := activeParticles s - 1\<rparr>)}"
        using set' f3(1) by simp
      show "pFree (s3\<lparr>activeParticles := activeParticles s - 1\<rparr>) =
              activeParticles (s3\<lparr>activeParticles := activeParticles s - 1\<rparr>)"
        using inv(3) f3(1) by (simp add: q_def)
      show "activeParticles (s3\<lparr>activeParticles := activeParticles s - 1\<rparr>)
              \<le> maxParticles (s3\<lparr>activeParticles := activeParticles s - 1\<rparr>)"
        using inv(4) f3(3) by simp
      show "maxParticles (s3\<lparr>activeParticles := activeParticles s - 1\<rparr>) < 2 ^ 32"
        using inv(5) f3(3) by simp
      show "map_option length (pMem (s3\<lparr>activeParticles := activeParticles s - 1\<rparr>)) =
              Some (maxParticles (s3\<lparr>activeParticles := activeParticles s - 1\<rparr>))"
        using inv(6) f3(3,5) m(1) by simp
    qed
    moreover have "frame (s3\<lparr>activeParticles := activeParticles s - 1\<rparr>) =
       frame (s\<lparr>pMem := map_option (\<lambda>m. m[p := m ! q]) (pMem s), pFree := q,
                activeParticles := activeParticles s - 1\<rparr>)"
      using s3(3) fr2 by (simp add: frame_upd)
    moreover have "listed w' (s3\<lparr>activeParticles := activeParticles s - 1\<rparr>) (map (moved q p) (us @ vs))"
      using s3(2) by simp
    ultimately show ?thesis unfolding q_def[symmetric] w'_def w_def by simp
  qed
qed

subsection \<open>The curves are evaluated within their arrays\<close>

definition window_ok :: "Particle \<Rightarrow> bool" where
  "window_ok x \<longleftrightarrow>
     0 \<le> p_sizeOffset x \<and> p_sizeOffset x \<le> 1 \<and>
     0 \<le> p_sizeOffset x + p_sizeIntervalSize x \<and> p_sizeOffset x + p_sizeIntervalSize x \<le> 1 \<and>
     p_life x \<le> p_lifetime x"

lemma to_size_t_nonneg: "0 \<le> x \<Longrightarrow> x < 2 ^ 64 \<Longrightarrow> to_size_t x = Some (nat \<lfloor>x\<rfloor>)"
  by (simp add: to_size_t_def)

lemma size_t_minus1_pos: "0 < n \<Longrightarrow> size_t_minus1 n = n - 1"
  by (simp add: size_t_minus1_def)

lemma bracket_defined:
  fixes u :: real
  assumes "xs \<noteq> []" "length xs \<le> 2 ^ 64" "0 \<le> u" "u \<le> 1"
  defines "s \<equiv> u * real (size_t_minus1 (length xs))"
  shows "\<exists>i. to_size_t s = Some i \<and> i < length xs \<and>
           (if i = size_t_minus1 (length xs) then i else i + 1) < length xs"
proof -
  let ?n = "length xs"
  have n: "0 < ?n" using assms(1) by simp
  have m1: "size_t_minus1 ?n = ?n - 1" using n by (rule size_t_minus1_pos)
  have s0: "0 \<le> s" unfolding s_def using assms(3) by simp
  have "s \<le> 1 * real (?n - 1)" unfolding s_def m1
    using assms(4) by (intro mult_right_mono) simp_all
  then have s1: "s \<le> real (?n - 1)" by simp
  have "real (?n - 1) < 2 ^ 64"
  proof -
    have "?n - 1 < 2 ^ 64" using n assms(2) by linarith
    then have "real (?n - 1) < real (2 ^ 64)" by (simp only: of_nat_less_iff)
    then show ?thesis by simp
  qed
  with s1 have s2: "s < 2 ^ 64" by linarith
  have i: "to_size_t s = Some (nat \<lfloor>s\<rfloor>)" using s0 s2 by (rule to_size_t_nonneg)
  have "\<lfloor>s\<rfloor> \<le> int (?n - 1)" using s1 by (simp add: floor_le_iff)
  then have le: "nat \<lfloor>s\<rfloor> \<le> ?n - 1" by linarith
  then have "nat \<lfloor>s\<rfloor> < ?n" using n by linarith
  moreover have "(if nat \<lfloor>s\<rfloor> = size_t_minus1 ?n then nat \<lfloor>s\<rfloor> else nat \<lfloor>s\<rfloor> + 1) < ?n"
    unfolding m1 using le n by auto
  ultimately show ?thesis using i by blast
qed

lemma size_curve_defined:
  assumes "szs \<noteq> []" "length szs \<le> 2 ^ 64" "0 \<le> off + t * ivl" "off + t * ivl \<le> 1"
  shows "\<exists>y. size_curve szs off ivl t = Some y"
proof -
  obtain i where "to_size_t ((off + t * ivl) * real (size_t_minus1 (length szs))) = Some i"
    "i < length szs" "(if i = size_t_minus1 (length szs) then i else i + 1) < length szs"
    using bracket_defined[OF assms] by blast
  then show ?thesis by (simp add: size_curve_def vec_at_def Let_def)
qed

lemma color_curve_defined:
  assumes "cs \<noteq> []" "length cs \<le> 2 ^ 64" "0 \<le> t" "t \<le> 1"
  shows "\<exists>y. color_curve cs t = Some y"
proof -
  obtain i where "to_size_t (t * real (size_t_minus1 (length cs))) = Some i"
    "i < length cs" "(if i = size_t_minus1 (length cs) then i else i + 1) < length cs"
    using bracket_defined[OF assms] by blast
  then show ?thesis by (simp add: color_curve_def vec_at_def Let_def)
qed

lemma quad_index_defined:
  assumes "k \<le> 2 ^ 64" "t < 1"
  shows "\<exists>q. quad_index k t old = Some q"
proof (cases "0 < k \<and> 0 < t * real k")
  case True
  have "t * real k < 1 * real k" using assms(2) True by (intro mult_strict_right_mono) simp_all
  moreover have "real k \<le> 2 ^ 64"
  proof -
    have "real k \<le> real (2 ^ 64)" using assms(1) by (simp only: of_nat_le_iff)
    then show ?thesis by simp
  qed
  ultimately have "t * real k < 2 ^ 64" by linarith
  then show ?thesis using True by (simp add: quad_index_def Let_def to_size_t_def)
next
  case False
  then show ?thesis by (auto simp: quad_index_def Let_def)
qed

lemma within_window:
  fixes off ivl t :: real
  assumes "0 \<le> off" "off \<le> 1" "0 \<le> off + ivl" "off + ivl \<le> 1" "0 \<le> t" "t \<le> 1"
  shows "0 \<le> off + t * ivl" "off + t * ivl \<le> 1"
proof -
  have eq: "off + t * ivl = (1 - t) * off + t * (off + ivl)" by (simp add: algebra_simps)
  have "0 \<le> (1 - t) * off" "0 \<le> t * (off + ivl)" using assms by simp_all
  then show "0 \<le> off + t * ivl" unfolding eq by linarith
  have "(1 - t) * off \<le> (1 - t) * 1" using assms by (intro mult_left_mono) simp_all
  then have a: "(1 - t) * off \<le> 1 - t" by simp
  have "t * (off + ivl) \<le> t * 1" using assms by (intro mult_left_mono) simp_all
  then have b: "t * (off + ivl) \<le> t" by simp
  show "off + t * ivl \<le> 1" unfolding eq using a b by linarith
qed

lemma integrate_defined:
  assumes "window_ok x" "0 < p_life x"
    and "sizes s \<noteq> []" "length (sizes s) \<le> 2 ^ 64" "colors s \<noteq> []" "length (colors s) \<le> 2 ^ 64"
    and "length (quads s) \<le> 2 ^ 64"
  shows "\<exists>sz c q. integrate s x = Some (x\<lparr>p_size := sz, p_color := c, p_quadIndex := q\<rparr>)"
proof -
  have lt: "0 < p_lifetime x" using assms(1,2) by (simp add: window_ok_def)
  define t where "t = 1 - p_life x / p_lifetime x"
  have age: "age x = Some t" using lt by (simp add: age_def t_def)
  have "p_life x / p_lifetime x \<le> 1" using assms(1) lt by (simp add: window_ok_def)
  moreover have "0 < p_life x / p_lifetime x" using assms(2) lt by simp
  ultimately have t: "0 \<le> t" "t < 1" by (simp_all add: t_def)
  then have t1: "t \<le> 1" by simp
  have w: "0 \<le> p_sizeOffset x + t * p_sizeIntervalSize x" "p_sizeOffset x + t * p_sizeIntervalSize x \<le> 1"
    using within_window[of "p_sizeOffset x" "p_sizeIntervalSize x" t] assms(1) t(1) t1
    by (simp_all add: window_ok_def)
  obtain sz where sz: "size_curve (sizes s) (p_sizeOffset x) (p_sizeIntervalSize x) t = Some sz"
    using size_curve_defined[OF assms(3,4) w] by blast
  obtain c where c: "color_curve (colors s) t = Some c"
    using color_curve_defined[OF assms(5,6) t(1) t1] by blast
  obtain q where q: "quad_index (length (quads s)) t (p_quadIndex x) = Some q"
    using quad_index_defined[OF assms(7) t(2)] by blast
  show ?thesis using age sz c q by (simp add: integrate_def) blast
qed

subsection \<open>Settings, and the particle a spawn creates\<close>

definition config_ok :: "ParticleSystem \<Rightarrow> bool" where
  "config_ok s \<longleftrightarrow>
     sizes s \<noteq> [] \<and> length (sizes s) \<le> 2 ^ 64 \<and>
     colors s \<noteq> [] \<and> length (colors s) \<le> 2 ^ 64 \<and>
     length (quads s) \<le> 2 ^ 64 \<and>
     0 \<le> sizeVariation s \<and> sizeVariation s \<le> 1 \<and>
     (\<forall>n. 0 \<le> unit_draws (rng s) n \<and> unit_draws (rng s) n \<le> 1)"

definition all_particles :: "(Particle \<Rightarrow> bool) \<Rightarrow> ParticleSystem \<Rightarrow> nat list \<Rightarrow> bool" where
  "all_particles P s xs \<longleftrightarrow> (\<forall>x\<in>set xs. P (payload (the (pMem s) ! x)))"

definition settings :: "ParticleSystem \<Rightarrow> ParticleSystem" where
  "settings s = s\<lparr>pMem := None, pFree := 0, pHead := None, pTail := None,
                   activeParticles := 0, rng := (rng s)\<lparr>drawn := 0\<rparr>\<rparr>"

definition spawn_draws :: "ParticleSystem \<Rightarrow> nat" where
  \<comment> \<open>the calls of the generator that \<open>initParticle\<close> makes\<close>
  "spawn_draws s = (if particleLifeMin s = particleLifeMax s then 0 else 1) + area_draws s + 12"

definition spawned :: "ParticleSystem \<Rightarrow> Particle" where
  "spawned s =
     (let (lf, g1) = (if particleLifeMin s = particleLifeMax s then (particleLifeMin s, rng s)
                      else rng_random (particleLifeMin s) (particleLifeMax s) (rng s));
          (off, g4) = rng_random 0 (sizeVariation s) (rng_discard 7 (rng_discard (area_draws s) g1));
          (v, g5) = rng_random 0 (sizeVariation s) g4
      in \<lparr>p_prev = None, p_next = None, p_lifetime = lf, p_life = lf, p_size = sizes s ! 0,
          p_sizeOffset = off, p_sizeIntervalSize = (1 - v) - off, p_color = colors s ! 0,
          p_quadIndex = 0\<rparr>)"

lemma window_ok_payload [simp]: "window_ok (payload x) = window_ok x"
  by (simp add: window_ok_def payload_def)

lemma settings_frame: "settings (frame t) = settings t"
  by (cases t) (simp add: settings_def frame_def)

lemma settings_of_frame:
  assumes "frame a = frame b"
  shows "settings a = settings b"
proof -
  have "settings (frame a) = settings (frame b)" using assms by simp
  then show ?thesis by (simp only: settings_frame)
qed

lemma settings_upd [simp]:
  "settings (t\<lparr>pMem := m\<rparr>) = settings t"
  "settings (t\<lparr>pFree := f\<rparr>) = settings t"
  "settings (t\<lparr>pHead := h\<rparr>) = settings t"
  "settings (t\<lparr>pTail := l\<rparr>) = settings t"
  "settings (t\<lparr>activeParticles := n\<rparr>) = settings t"
  "settings (t\<lparr>rng := g\<lparr>drawn := k\<rparr>\<rparr>) = settings (t\<lparr>rng := g\<rparr>)"
  "settings (t\<lparr>rng := rng t\<rparr>) = settings t"
  by (cases t; simp add: settings_def)+

lemma settings_rng_upd [simp]:
  "settings t = settings s \<Longrightarrow> settings (t\<lparr>rng := rng s\<rparr>) = settings s"
  by (cases t; cases s; simp add: settings_def)

lemma settings_fields:
  assumes "settings s' = settings s"
  shows "active s' = active s" "insertMode s' = insertMode s" "maxParticles s' = maxParticles s"
    "emissionRate s' = emissionRate s" "emitCounter s' = emitCounter s"
    "lifetime s' = lifetime s" "life s' = life s"
    "particleLifeMin s' = particleLifeMin s" "particleLifeMax s' = particleLifeMax s"
    "sizes s' = sizes s" "sizeVariation s' = sizeVariation s" "colors s' = colors s"
    "quads s' = quads s" "unit_draws (rng s') = unit_draws (rng s)"
    "int_draws (rng s') = int_draws (rng s)"
proof -
  have f: "F s' = F s" if "\<And>t. F (settings t) = F t" for F :: "ParticleSystem \<Rightarrow> 'a"
    using arg_cong[OF assms, of F] that by simp
  show "active s' = active s" by (rule f) (simp add: settings_def)
  show "insertMode s' = insertMode s" by (rule f) (simp add: settings_def)
  show "maxParticles s' = maxParticles s" by (rule f) (simp add: settings_def)
  show "emissionRate s' = emissionRate s" by (rule f) (simp add: settings_def)
  show "emitCounter s' = emitCounter s" by (rule f) (simp add: settings_def)
  show "lifetime s' = lifetime s" by (rule f) (simp add: settings_def)
  show "life s' = life s" by (rule f) (simp add: settings_def)
  show "particleLifeMin s' = particleLifeMin s" by (rule f) (simp add: settings_def)
  show "particleLifeMax s' = particleLifeMax s" by (rule f) (simp add: settings_def)
  show "sizes s' = sizes s" by (rule f) (simp add: settings_def)
  show "sizeVariation s' = sizeVariation s" by (rule f) (simp add: settings_def)
  show "colors s' = colors s" by (rule f) (simp add: settings_def)
  show "quads s' = quads s" by (rule f) (simp add: settings_def)
  show "unit_draws (rng s') = unit_draws (rng s)"
    using f[of "\<lambda>t. unit_draws (rng t)"] by (simp add: settings_def)
  show "int_draws (rng s') = int_draws (rng s)"
    using f[of "\<lambda>t. int_draws (rng t)"] by (simp add: settings_def)
qed

lemma config_ok_settings:
  assumes "settings s' = settings s"
  shows "config_ok s' = config_ok s"
  using settings_fields[OF assms] by (simp add: config_ok_def)

lemma linked_update_notin:
  assumes "p \<notin> set xs"
  shows "linked (m[p := v]) h xs = linked m h xs"
proof -
  have "m[p := v] ! x = m ! x" if "x \<in> set xs" for x
    using that assms by (cases "x = p") simp_all
  then show ?thesis by (simp add: linked_def cong: ball_cong)
qed

lemma unit_scaled:
  fixes u v :: real
  assumes "0 \<le> u" "u \<le> 1" "0 \<le> v" "v \<le> 1"
  shows "0 \<le> u * v" "u * v \<le> 1"
proof -
  show "0 \<le> u * v" using assms by simp
  have "u * v \<le> 1 * 1" using assms by (intro mult_mono) simp_all
  then show "u * v \<le> 1" by simp
qed

lemma window_ok_spawned: "config_ok s \<Longrightarrow> window_ok (spawned s)"
proof -
  assume c: "config_ok s"
  have u: "0 \<le> unit_draws (rng s) n" "unit_draws (rng s) n \<le> 1" for n
    using c by (simp_all add: config_ok_def)
  have v: "0 \<le> sizeVariation s" "sizeVariation s \<le> 1" using c by (simp_all add: config_ok_def)
  note uv = unit_scaled[OF u v]
  show ?thesis
    by (auto simp: spawned_def window_ok_def rng_random_def rng_discard_def Let_def uv
        split: prod.splits if_splits)
qed

lemma initParticle_spawned:
  assumes "config_ok s" "pMem s = Some m" "p < length m"
  shows "initParticle p t s =
     Some (s\<lparr>rng := (rng s)\<lparr>drawn := drawn (rng s) + spawn_draws s\<rparr>,
             pMem := Some (m[p := (spawned s)\<lparr>p_prev := p_prev (m ! p), p_next := p_next (m ! p)\<rparr>])\<rparr>)"
proof -
  have u: "0 \<le> unit_draws (rng s) n" "unit_draws (rng s) n \<le> 1" for n
    using assms(1) by (simp_all add: config_ok_def)
  have v: "0 \<le> sizeVariation s" "sizeVariation s \<le> 1" using assms(1) by (simp_all add: config_ok_def)
  note uv = unit_scaled[OF u v]
  have idx: "to_size_t (unit_draws (rng s) n * sizeVariation s - 1 / 2) = Some 0" for n
  proof -
    have "\<lfloor>unit_draws (rng s) n * sizeVariation s - 1 / 2\<rfloor> \<le> 0"
      using uv(2)[of n] by (simp add: floor_le_iff)
    then show ?thesis using uv[of n] by (simp add: to_size_t_def)
  qed
  have sz: "sizes s \<noteq> []" "colors s \<noteq> []" using assms(1) by (simp_all add: config_ok_def)
  show ?thesis using assms(2,3) sz idx
    by (cases "m ! p")
      (simp add: initParticle_def rng_random_def rng_discard_def spawn_draws_def Let_def vec_at_def
        assign_def spawned_def)
qed

lemma payload_spawned [simp]: "payload (spawned s) = spawned s"
  by (simp add: spawned_def payload_def Let_def split: prod.splits)

lemma spawned_pFree [simp]: "spawned (s\<lparr>pFree := f\<rparr>) = spawned s"
  by (simp add: spawned_def area_draws_def)

lemma spawn_draws_pFree [simp]: "spawn_draws (s\<lparr>pFree := f\<rparr>) = spawn_draws s"
  by (simp add: spawn_draws_def area_draws_def)

lemma config_ok_pFree [simp]: "config_ok (s\<lparr>pFree := f\<rparr>) = config_ok s"
  by (simp add: config_ok_def)

lemma insert_by_mode:
  assumes "listed (insertMode s = INSERT_MODE_RANDOM) s xs" "set xs = {0..<activeParticles s}"
    and "p \<notin> set xs" "p < length (the (pMem s))"
  shows "\<exists>s' ys k.
     (case insertMode s of
        INSERT_MODE_BOTTOM \<Rightarrow> insertBottom p s
      | INSERT_MODE_RANDOM \<Rightarrow> insertRandom p s
      | _ \<Rightarrow> insertTop p s) = Some s' \<and>
     listed (insertMode s = INSERT_MODE_RANDOM) s' ys \<and> set ys = insert p (set xs) \<and>
     frame s' = frame (s\<lparr>rng := (rng s)\<lparr>drawn := k\<rparr>\<rparr>)"
proof (cases "insertMode s = INSERT_MODE_RANDOM")
  case True
  obtain s' ys where "insertRandom p s = Some s'" "listed True s' ys" "set ys = insert p (set xs)"
    "frame s' = frame (s\<lparr>rng := snd (rng_rand (rng s))\<rparr>)"
    using insertRandom_listed[OF assms] by blast
  then show ?thesis using True by (auto simp: rng_rand_def)
next
  case False
  have same: "s\<lparr>rng := (rng s)\<lparr>drawn := drawn (rng s)\<rparr>\<rparr> = s" by simp
  have l: "listed False s xs" using assms(1) False by simp
  show ?thesis
  proof (cases "insertMode s = INSERT_MODE_BOTTOM")
    case True
    obtain s' where "insertBottom p s = Some s'" "listed False s' (p # xs)" "frame s' = frame s"
      using insertBottom_listed[OF l assms(3,4)] by blast
    then show ?thesis using True same
      by (intro exI[of _ s'] exI[of _ "p # xs"] exI[of _ "drawn (rng s)"]) simp
  next
    case b: False
    obtain s' where "insertTop p s = Some s'" "listed False s' (xs @ [p])" "frame s' = frame s"
      using insertTop_listed[OF l assms(3,4)] by blast
    then have "listed False s' (xs @ [p]) \<and> set (xs @ [p]) = insert p (set xs) \<and>
        frame s' = frame (s\<lparr>rng := (rng s)\<lparr>drawn := drawn (rng s)\<rparr>\<rparr>)"
      using same by simp
    moreover have "(case insertMode s of
        INSERT_MODE_BOTTOM \<Rightarrow> insertBottom p s
      | INSERT_MODE_RANDOM \<Rightarrow> insertRandom p s
      | _ \<Rightarrow> insertTop p s) = Some s'"
      using False b \<open>insertTop p s = Some s'\<close> by (cases "insertMode s") simp_all
    ultimately show ?thesis using False
      by (intro exI[of _ s'] exI[of _ "xs @ [p]"] exI[of _ "drawn (rng s)"]) simp
  qed
qed

lemma addParticle_inv:
  assumes "pool_inv s xs" "config_ok s"
  shows "\<exists>s' ys. addParticle t s = Some s' \<and> pool_inv s' ys \<and> settings s' = settings s \<and>
     (if isFull s then s' = s \<and> ys = xs
      else activeParticles s' = activeParticles s + 1 \<and> set ys = insert (pFree s) (set xs) \<and>
           payload (the (pMem s') ! pFree s) = spawned s \<and>
           (\<forall>x\<in>set xs. payload (the (pMem s') ! x) = payload (the (pMem s) ! x)))"
proof (cases "isFull s")
  case True
  then show ?thesis using assms(1) by (simp add: addParticle_def)
next
  case False
  define w where "w = (insertMode s = INSERT_MODE_RANDOM)"
  define p where "p = pFree s"
  have inv: "listed w s xs" "set xs = {0..<pFree s}"
    "pFree s = activeParticles s" "activeParticles s \<le> maxParticles s" "maxParticles s < 2 ^ 32"
    "map_option length (pMem s) = Some (maxParticles s)"
    using assms(1) by (simp_all add: pool_inv_def w_def)
  obtain m where m: "pMem s = Some m" "distinct xs" "linked m (pHead s) xs" "tail_ok w (pTail s) xs"
    using inv(1) by (rule listedD)
  have len: "length m = maxParticles s" using inv(6) m(1) by simp
  have p: "p < length m" "p \<notin> set xs" "p = activeParticles s"
    using False inv(2,3,4) len by (simp_all add: isFull_def p_def)
  define x where "x = (spawned s)\<lparr>p_prev := p_prev (m ! p), p_next := p_next (m ! p)\<rparr>"
  define k1 where "k1 = drawn (rng s) + spawn_draws s"
  define s1 where "s1 = s\<lparr>pFree := p + 1, rng := (rng s)\<lparr>drawn := k1\<rparr>, pMem := Some (m[p := x])\<rparr>"
  have init: "initParticle p t (s\<lparr>pFree := pFree s + 1\<rparr>) = Some s1"
    using initParticle_spawned[of "s\<lparr>pFree := p + 1\<rparr>" m p t] assms(2) m(1) p(1)
    by (simp add: s1_def x_def k1_def p_def)
  have l1: "listed (insertMode s1 = INSERT_MODE_RANDOM) s1 xs"
    using m p(2) by (simp add: s1_def listed_def linked_update_notin w_def)
  have a1: "set xs = {0..<activeParticles s1}" using inv(2,3) by (simp add: s1_def)
  have p1: "p < length (the (pMem s1))" using p(1) by (simp add: s1_def)
  obtain s2 ys k where s2: "(case insertMode s1 of
        INSERT_MODE_BOTTOM \<Rightarrow> insertBottom p s1
      | INSERT_MODE_RANDOM \<Rightarrow> insertRandom p s1
      | _ \<Rightarrow> insertTop p s1) = Some s2"
    "listed (insertMode s1 = INSERT_MODE_RANDOM) s2 ys" "set ys = insert p (set xs)"
    "frame s2 = frame (s1\<lparr>rng := (rng s1)\<lparr>drawn := k\<rparr>\<rparr>)"
    using insert_by_mode[OF l1 a1 p(2) p1] by blast
  note f2 = frame_fields[OF s2(4)]
  have f2': "pFree s2 = p + 1" "activeParticles s2 = activeParticles s" "maxParticles s2 = maxParticles s"
    "insertMode s2 = insertMode s" "map_option length (pMem s2) = Some (maxParticles s)"
    using f2(1-5) len by (simp_all add: s1_def)
  define s3 where "s3 = s2\<lparr>activeParticles := activeParticles s + 1\<rparr>"
  have "u32 (activeParticles s + 1) = activeParticles s + 1"
    using False inv(4,5) by (intro u32_id) (simp add: isFull_def)
  then have add: "addParticle t s = Some s3"
    using False init s2(1) f2'(2) by (simp add: addParticle_def s3_def Let_def p_def[symmetric])
  have pool: "pool_inv s3 ys"
    unfolding pool_inv_def
  proof (intro conjI)
    show "listed (insertMode s3 = INSERT_MODE_RANDOM) s3 ys"
      using s2(2) f2'(4) by (simp add: s3_def s1_def)
    show "set ys = {0..<pFree s3}"
      using s2(3) inv(2) f2'(1) by (auto simp: s3_def p_def)
    show "pFree s3 = activeParticles s3" using f2'(1) p(3) by (simp add: s3_def)
    show "activeParticles s3 \<le> maxParticles s3"
      using False inv(4) f2'(3) by (simp add: s3_def isFull_def)
    show "maxParticles s3 < 2 ^ 32" using inv(5) f2'(3) by (simp add: s3_def)
    show "map_option length (pMem s3) = Some (maxParticles s3)"
      using f2'(3,5) by (simp add: s3_def)
  qed
  have set3: "settings s3 = settings s"
  proof -
    have "settings s2 = settings (s1\<lparr>rng := (rng s1)\<lparr>drawn := k\<rparr>\<rparr>)"
      using s2(4) by (rule settings_of_frame)
    also have "\<dots> = settings s" by (simp add: s1_def)
    finally show ?thesis by (simp add: s3_def)
  qed
  obtain m2 where m2: "pMem s2 = Some m2" "length m2 = length (m[p := x])"
    "\<forall>i<length (m[p := x]). payload (m2 ! i) = payload (m[p := x] ! i)"
    using frame_payload[OF s2(4), of "m[p := x]"] by (auto simp: s1_def)
  have pay_new: "payload (the (pMem s3) ! pFree s) = spawned s"
    using m2 p(1) by (simp add: s3_def p_def[symmetric] x_def)
  have pay_old: "payload (the (pMem s3) ! y) = payload (the (pMem s) ! y)" if "y \<in> set xs" for y
  proof -
    have "y < length m" "y \<noteq> p" using that m(3) p(2) by (auto simp: linked_def)
    then show ?thesis using m2 m(1) by (simp add: s3_def)
  qed
  show ?thesis using add pool set3 False s2(3) pay_new pay_old
    by (auto simp: s3_def p_def)
qed

subsection \<open>The particle loop of the tick\<close>

lemma linked_payload_update:
  assumes "linked m h xs" "p_prev v = p_prev (m ! i)" "p_next v = p_next (m ! i)"
  shows "linked (m[i := v]) h xs"
proof -
  have "p_next (m[i := v] ! x) = p_next (m ! x) \<and> p_prev (m[i := v] ! x) = p_prev (m ! x)"
    if "x < length m" for x
    using that assms(2,3) by (cases "x = i") simp_all
  then show ?thesis using assms(1) by (auto simp: linked_def)
qed

lemma pool_inv_mem_update:
  assumes "pool_inv s xs" "pMem s = Some m" "p_prev v = p_prev (m ! i)" "p_next v = p_next (m ! i)"
  shows "pool_inv (s\<lparr>pMem := Some (m[i := v])\<rparr>) xs"
  using assms by (simp add: pool_inv_def listed_def linked_payload_update)

lemma pool_inv_in_range:
  assumes "pool_inv s xs" "pMem s = Some m" "x \<in> set xs"
  shows "x < length m"
  using assms by (auto simp: pool_inv_def listed_def linked_def)

lemma pool_inv_next:
  assumes "pool_inv s (us @ i # ws)" "pMem s = Some m"
  shows "p_next (m ! i) = first_of ws"
  using assms
  by (auto simp: pool_inv_def listed_def linked_def succ_in_append succ_in_Cons
      dest: last_of_in_set)

lemma all_particles_append:
  "all_particles P s (us @ vs) \<longleftrightarrow> all_particles P s us \<and> all_particles P s vs"
  by (auto simp: all_particles_def)

lemma all_particles_Cons:
  "all_particles P s (x # xs) \<longleftrightarrow> P (payload (the (pMem s) ! x)) \<and> all_particles P s xs"
  by (auto simp: all_particles_def)

lemma all_particles_Nil [simp]: "all_particles P s []"
  by (simp add: all_particles_def)

lemma all_particles_mem_update:
  assumes "all_particles P s xs" "pMem s = Some m" "i \<notin> set xs"
  shows "all_particles P (s\<lparr>pMem := Some (m[i := v])\<rparr>) xs"
proof -
  have "m[i := v] ! x = m ! x" if "x \<in> set xs" for x
    using that assms(3) by (cases "x = i") auto
  then show ?thesis using assms(1,2) by (simp add: all_particles_def)
qed

lemma all_particles_moved:
  assumes "all_particles P s xs" "pMem s = Some m" "i \<notin> set xs" "i < length m"
    and "frame s' = frame (s\<lparr>pMem := Some (m[i := m ! q]), pFree := f, activeParticles := a\<rparr>)"
    and "\<forall>x\<in>set xs. x < length m"
  shows "all_particles P s' (map (moved q i) xs)"
proof -
  obtain m' where m': "pMem s' = Some m'" "length m' = length (m[i := m ! q])"
    "\<forall>j<length (m[i := m ! q]). payload (m' ! j) = payload (m[i := m ! q] ! j)"
    using frame_payload[OF assms(5), of "m[i := m ! q]"] by auto
  have "P (payload (m' ! moved q i x))" if "x \<in> set xs" for x
  proof -
    have x: "x < length m" "x \<noteq> i" "P (payload (m ! x))"
      using that assms(1,2,3,6) by (auto simp: all_particles_def)
    show ?thesis
    proof (cases "x = q")
      case True
      then show ?thesis using m' x assms(4) by (simp add: moved_def)
    next
      case False
      then show ?thesis using m' x by (simp add: moved_def)
    qed
  qed
  then show ?thesis using m'(1) by (simp add: all_particles_def)
qed

lemma payload_fields:
  "payload (y\<lparr>p_life := a, p_size := b, p_color := c, p_quadIndex := d\<rparr>) =
     (payload y)\<lparr>p_life := a, p_size := b, p_color := c, p_quadIndex := d\<rparr>"
  "p_life (payload y) = p_life y"
  by (simp_all add: payload_def)

lemma update_particles_inv:
  assumes PQ: "\<And>x sz c q. P x \<Longrightarrow> 0 < p_life x - dt \<Longrightarrow>
                 Q (x\<lparr>p_life := p_life x - dt, p_size := sz, p_color := c, p_quadIndex := q\<rparr>)"
    and PW: "\<And>x. P x \<Longrightarrow> window_ok x"
    and dt: "0 \<le> dt"
  shows "pool_inv s (us @ vs) \<Longrightarrow> config_ok s \<Longrightarrow> all_particles Q s us \<Longrightarrow>
     all_particles P s vs \<Longrightarrow>
     \<exists>s' ys. update_particles dt (first_of vs) s = Some s' \<and> pool_inv s' ys \<and>
        all_particles Q s' ys \<and> settings s' = settings s \<and> length ys \<le> length (us @ vs) \<and>
        ((\<forall>x\<in>set vs. dt < p_life (the (pMem s) ! x)) \<longrightarrow> length ys = length (us @ vs))"
proof (induction "length vs" arbitrary: s us vs)
  case 0
  then have "vs = []" by simp
  moreover have "update_particles dt None s = Some s"
    by (subst update_particles.simps) simp
  ultimately show ?case using 0
    by (intro exI[of _ s] exI[of _ us]) simp
next
  case (Suc n)
  then obtain i ws where vs: "vs = i # ws" "length ws = n" by (cases vs) auto
  note inv = Suc.prems(1)[unfolded vs]
  obtain m where m: "pMem s = Some m"
    using inv by (auto simp: pool_inv_def listed_def split: option.splits)
  have i: "i < length m" using inv m by (rule pool_inv_in_range) simp
  have dist: "distinct (us @ i # ws)" using inv by (auto simp: pool_inv_def listed_def split: option.splits)
  have rng_all: "\<forall>x\<in>set (us @ i # ws). x < length m"
    using pool_inv_in_range[OF inv m] by blast
  define x where "x = (m ! i)\<lparr>p_life := p_life (m ! i) - dt\<rparr>"
  define s1 where "s1 = s\<lparr>pMem := Some (m[i := x])\<rparr>"
  have links: "p_prev x = p_prev (m ! i)" "p_next x = p_next (m ! i)" by (simp_all add: x_def)
  have inv1: "pool_inv s1 (us @ i # ws)"
    unfolding s1_def using inv m links by (rule pool_inv_mem_update)
  have m1: "pMem s1 = Some (m[i := x])" by (simp add: s1_def)
  have set1: "settings s1 = settings s" by (simp add: s1_def)
  have cfg1: "config_ok s1" using Suc.prems(2) config_ok_settings[OF set1] by simp
  have Pi: "P (payload (m ! i))" using Suc.prems(4) m by (simp add: vs all_particles_Cons)
  have Qus: "all_particles Q s1 us"
    unfolding s1_def using Suc.prems(3) m dist by (intro all_particles_mem_update) auto
  have Pws: "all_particles P s1 ws"
    unfolding s1_def using Suc.prems(4) m dist by (intro all_particles_mem_update) (auto simp: vs all_particles_Cons)
  have step: "update_particles dt (first_of vs) s =
      (if p_life x \<le> 0
       then do { (pn, s2) \<leftarrow> removeParticle i s1; update_particles dt pn s2 }
       else do { x' \<leftarrow> integrate s1 x; s2 \<leftarrow> assign i (\<lambda>_. x') s1;
                 update_particles dt (p_next x') s2 })"
    using m i
    by (subst update_particles.simps) (simp add: vs assign_def deref_def s1_def x_def)
  show ?case
  proof (cases "p_life x \<le> 0")
    case True
    define q where "q = pFree s1 - 1"
    obtain s2 where s2: "removeParticle i s1 = Some (map_option (moved q i) (first_of ws), s2)"
      "pool_inv s2 (map (moved q i) (us @ ws))"
      "frame s2 = frame (s1\<lparr>pMem := map_option (\<lambda>m. m[i := m ! q]) (pMem s1),
                            pFree := q, activeParticles := activeParticles s1 - 1\<rparr>)"
      using removeParticle_pool[OF inv1] unfolding q_def by blast
    have fr: "frame s2 = frame (s1\<lparr>pMem := Some ((m[i := x])[i := (m[i := x]) ! q]),
                            pFree := q, activeParticles := activeParticles s1 - 1\<rparr>)"
      using s2(3) by (simp add: m1)
    have set2: "settings s2 = settings s"
      using settings_of_frame[OF fr] set1 by simp
    have cfg2: "config_ok s2" using Suc.prems(2) config_ok_settings[OF set2] by simp
    have i1: "i < length (m[i := x])" using i by simp
    have r1: "\<forall>y\<in>set us. y < length (m[i := x])" "\<forall>y\<in>set ws. y < length (m[i := x])"
      using rng_all by simp_all
    have Q2: "all_particles Q s2 (map (moved q i) us)"
      using Qus m1 _ i1 fr r1(1) by (rule all_particles_moved) (use dist in auto)
    have P2: "all_particles P s2 (map (moved q i) ws)"
      using Pws m1 _ i1 fr r1(2) by (rule all_particles_moved) (use dist in auto)
    have len: "n = length (map (moved q i) ws)" using vs by simp
    have inv2: "pool_inv s2 (map (moved q i) us @ map (moved q i) ws)" using s2(2) by simp
    obtain s' ys where r: "update_particles dt (first_of (map (moved q i) ws)) s2 = Some s'"
      "pool_inv s' ys" "all_particles Q s' ys" "settings s' = settings s2"
      "length ys \<le> length (map (moved q i) us @ map (moved q i) ws)"
      using Suc.hyps(1)[OF len inv2 cfg2 Q2 P2] by blast
    have "update_particles dt (first_of vs) s = Some s'"
      using step True s2(1) r(1) by (simp add: first_of_map)
    moreover have "\<not> (\<forall>y\<in>set vs. dt < p_life (the (pMem s) ! y))"
      using True m by (auto simp: vs x_def)
    ultimately show ?thesis using r(2,3,4,5) set2 by (auto simp: vs)
  next
    case False
    have wi: "window_ok (m ! i)" using PW[OF Pi] by simp
    have wx: "window_ok x" using wi dt by (simp add: window_ok_def x_def)
    have pos: "0 < p_life x" using False by simp
    have c: "sizes s1 \<noteq> []" "length (sizes s1) \<le> 2 ^ 64" "colors s1 \<noteq> []"
      "length (colors s1) \<le> 2 ^ 64" "length (quads s1) \<le> 2 ^ 64"
      using cfg1 by (simp_all add: config_ok_def)
    obtain sz cl qi where x': "integrate s1 x = Some (x\<lparr>p_size := sz, p_color := cl, p_quadIndex := qi\<rparr>)"
      using integrate_defined[OF wx pos c] by blast
    define x' where "x' = x\<lparr>p_size := sz, p_color := cl, p_quadIndex := qi\<rparr>"
    define s2 where "s2 = s\<lparr>pMem := Some (m[i := x'])\<rparr>"
    have as: "assign i (\<lambda>_. x') s1 = Some s2" using i by (simp add: assign_def s1_def s2_def)
    have links': "p_prev x' = p_prev (m ! i)" "p_next x' = p_next (m ! i)"
      by (simp_all add: x'_def x_def)
    have nx: "p_next x' = first_of ws" using pool_inv_next[OF inv m] links' by simp
    have inv2: "pool_inv s2 ((us @ [i]) @ ws)"
      unfolding s2_def using pool_inv_mem_update[OF inv m links'] by simp
    have set2: "settings s2 = settings s" by (simp add: s2_def)
    have cfg2: "config_ok s2" using Suc.prems(2) config_ok_settings[OF set2] by simp
    have "Q (payload x')"
      using PQ[where x = "payload (m ! i)" and sz = sz and c = cl and q = qi] Pi pos
      by (simp add: x'_def x_def payload_fields)
    moreover have "all_particles Q s2 us"
      unfolding s2_def using Suc.prems(3) m dist by (intro all_particles_mem_update) auto
    ultimately have Q2: "all_particles Q s2 (us @ [i])"
      using i by (simp add: all_particles_append all_particles_Cons s2_def)
    have P2: "all_particles P s2 ws"
      unfolding s2_def using Suc.prems(4) m dist
      by (intro all_particles_mem_update) (auto simp: vs all_particles_Cons)
    obtain s' ys where r: "update_particles dt (first_of ws) s2 = Some s'"
      "pool_inv s' ys" "all_particles Q s' ys" "settings s' = settings s2"
      "length ys \<le> length ((us @ [i]) @ ws)"
      "(\<forall>y\<in>set ws. dt < p_life (the (pMem s2) ! y)) \<longrightarrow> length ys = length ((us @ [i]) @ ws)"
      using Suc.hyps(1)[OF vs(2)[symmetric] inv2 cfg2 Q2 P2] by blast
    have "update_particles dt (first_of vs) s = Some s'"
      using step False x' as r(1) nx by (simp add: x'_def)
    moreover have "\<forall>y\<in>set ws. dt < p_life (the (pMem s2) ! y)"
      if "\<forall>y\<in>set vs. dt < p_life (the (pMem s) ! y)"
    proof
      fix y assume y: "y \<in> set ws"
      then have "y \<noteq> i" using dist by auto
      then show "dt < p_life (the (pMem s2) ! y)" using that y m by (simp add: s2_def vs)
    qed
    ultimately show ?thesis using r(2,3,4,5,6) set2 by (auto simp: vs)
  qed
qed

subsection \<open>Emission\<close>

definition config :: "ParticleSystem \<Rightarrow> ParticleSystem" where
  "config s = settings (s\<lparr>emitCounter := Finite 0, life := 0, active := False\<rparr>)"

lemma config_of_settings:
  assumes "settings a = settings b"
  shows "config a = config b"
proof -
  have "config t = (settings t)\<lparr>emitCounter := Finite 0, life := 0, active := False\<rparr>" for t
    by (cases t) (simp add: config_def settings_def)
  then show ?thesis using assms by simp
qed

lemma config_upd [simp]:
  "config (t\<lparr>emitCounter := e\<rparr>) = config t"
  "config (t\<lparr>life := l\<rparr>) = config t"
  "config (t\<lparr>active := a\<rparr>) = config t"
  by (cases t; simp add: config_def settings_def)+

lemma config_fields:
  assumes "config s' = config s"
  shows "insertMode s' = insertMode s" "maxParticles s' = maxParticles s"
    "emissionRate s' = emissionRate s" "lifetime s' = lifetime s"
    "particleLifeMin s' = particleLifeMin s" "particleLifeMax s' = particleLifeMax s"
    "sizes s' = sizes s" "sizeVariation s' = sizeVariation s" "colors s' = colors s"
    "quads s' = quads s" "unit_draws (rng s') = unit_draws (rng s)"
    "int_draws (rng s') = int_draws (rng s)"
    "areaSpreadDistribution s' = areaSpreadDistribution s"
proof -
  have f: "F s' = F s" if "\<And>t. F (config t) = F t" for F :: "ParticleSystem \<Rightarrow> 'a"
    using arg_cong[OF assms, of F] that by simp
  show "insertMode s' = insertMode s" by (rule f) (simp add: config_def settings_def)
  show "maxParticles s' = maxParticles s" by (rule f) (simp add: config_def settings_def)
  show "emissionRate s' = emissionRate s" by (rule f) (simp add: config_def settings_def)
  show "lifetime s' = lifetime s" by (rule f) (simp add: config_def settings_def)
  show "particleLifeMin s' = particleLifeMin s" by (rule f) (simp add: config_def settings_def)
  show "particleLifeMax s' = particleLifeMax s" by (rule f) (simp add: config_def settings_def)
  show "sizes s' = sizes s" by (rule f) (simp add: config_def settings_def)
  show "sizeVariation s' = sizeVariation s" by (rule f) (simp add: config_def settings_def)
  show "colors s' = colors s" by (rule f) (simp add: config_def settings_def)
  show "quads s' = quads s" by (rule f) (simp add: config_def settings_def)
  show "unit_draws (rng s') = unit_draws (rng s)"
    using f[of "\<lambda>t. unit_draws (rng t)"] by (simp add: config_def settings_def)
  show "int_draws (rng s') = int_draws (rng s)"
    using f[of "\<lambda>t. int_draws (rng t)"] by (simp add: config_def settings_def)
  show "areaSpreadDistribution s' = areaSpreadDistribution s"
    by (rule f) (simp add: config_def settings_def)
qed

lemma config_ok_config:
  assumes "config s' = config s"
  shows "config_ok s' = config_ok s"
  using config_fields[OF assms] by (simp add: config_ok_def)

lemma pool_inv_upd [simp]:
  "pool_inv (s\<lparr>emitCounter := e\<rparr>) xs = pool_inv s xs"
  "pool_inv (s\<lparr>life := l\<rparr>) xs = pool_inv s xs"
  "pool_inv (s\<lparr>active := a\<rparr>) xs = pool_inv s xs"
  by (simp_all add: pool_inv_def)

lemma all_particles_upd [simp]:
  "all_particles P (s\<lparr>emitCounter := e\<rparr>) xs = all_particles P s xs"
  "all_particles P (s\<lparr>life := l\<rparr>) xs = all_particles P s xs"
  "all_particles P (s\<lparr>active := a\<rparr>) xs = all_particles P s xs"
  by (simp_all add: all_particles_def)

lemma pool_inv_count:
  assumes "pool_inv s xs"
  shows "length xs = activeParticles s"
proof -
  have "distinct xs" "set xs = {0..<activeParticles s}"
    using assms by (auto simp: pool_inv_def listed_def split: option.splits)
  then show ?thesis by (metis card_atLeastLessThan diff_zero distinct_card)
qed

text \<open>One more particle: what \<open>addParticle\<close> does to the invariant and to the count.\<close>

lemma addParticle_all:
  assumes "pool_inv s xs" "config_ok s" "all_particles Q s xs" "Q (spawned s)"
  shows "\<exists>s' ys. addParticle t s = Some s' \<and> pool_inv s' ys \<and> all_particles Q s' ys \<and>
           settings s' = settings s \<and>
           activeParticles s' = min (maxParticles s) (activeParticles s + 1)"
proof -
  obtain s' ys where r: "addParticle t s = Some s'" "pool_inv s' ys" "settings s' = settings s"
    "if isFull s then s' = s \<and> ys = xs
      else activeParticles s' = activeParticles s + 1 \<and> set ys = insert (pFree s) (set xs) \<and>
           payload (the (pMem s') ! pFree s) = spawned s \<and>
           (\<forall>x\<in>set xs. payload (the (pMem s') ! x) = payload (the (pMem s) ! x))"
    using addParticle_inv[OF assms(1,2), of t] by blast
  have le: "activeParticles s \<le> maxParticles s" using assms(1) by (simp add: pool_inv_def)
  show ?thesis
  proof (cases "isFull s")
    case True
    then show ?thesis using r assms(3) le
      by (intro exI[of _ s'] exI[of _ ys]) (simp add: isFull_def)
  next
    case False
    then have "all_particles Q s' ys" using r(4) assms(3,4) by (auto simp: all_particles_def)
    then show ?thesis using r False le
      by (intro exI[of _ s'] exI[of _ ys]) (simp add: isFull_def)
  qed
qed

lemma emit_loop_inv:
  assumes SQ: "\<And>t. config t = config s0 \<Longrightarrow> Q (spawned t)"
  shows "pool_inv s xs \<Longrightarrow> config_ok s \<Longrightarrow> all_particles Q s xs \<Longrightarrow> config s = config s0 \<Longrightarrow>
     \<exists>s' ys. emit_loop k s = Some s' \<and> pool_inv s' ys \<and> all_particles Q s' ys \<and>
        settings s' = settings s \<and>
        activeParticles s' = min (maxParticles s) (activeParticles s + k)"
proof (induction k arbitrary: s xs)
  case 0
  have "activeParticles s \<le> maxParticles s" using 0(1) by (simp add: pool_inv_def)
  then show ?case using 0 by (intro exI[of _ s] exI[of _ xs]) simp
next
  case (Suc k)
  obtain s1 ys where s1: "addParticle (Finite 1) s = Some s1" "pool_inv s1 ys"
    "all_particles Q s1 ys" "settings s1 = settings s"
    "activeParticles s1 = min (maxParticles s) (activeParticles s + 1)"
    using addParticle_all[OF Suc.prems(1,2,3) SQ[OF Suc.prems(4)]] by blast
  note f1 = settings_fields[OF s1(4)]
  have c1: "config s1 = config s0" using config_of_settings[OF s1(4)] Suc.prems(4) by simp
  have ok1: "config_ok s1" using config_ok_settings[OF s1(4)] Suc.prems(2) by simp
  obtain s' zs where r: "emit_loop k s1 = Some s'" "pool_inv s' zs" "all_particles Q s' zs"
    "settings s' = settings s1"
    "activeParticles s' = min (maxParticles s1) (activeParticles s1 + k)"
    using Suc.IH[OF s1(2) ok1 s1(3) c1] by blast
  have "emit_loop (Suc k) s = Some s'" using s1(1) r(1) by simp
  moreover have "activeParticles s' = min (maxParticles s) (activeParticles s + Suc k)"
    using r(5) s1(5) f1(3) by (simp add: min_def)
  ultimately show ?case using r(2,3,4) s1(4)
    by (intro exI[of _ s'] exI[of _ zs]) simp
qed

lemma u32_sub:
  assumes "a \<le> b" "b < 2 ^ 32"
  shows "u32 (b + 2 ^ 32 - a) = b - a"
proof -
  have "b + 2 ^ 32 - a = 2 ^ 32 + (b - a)" using assms(1) by simp
  then have "u32 (b + 2 ^ 32 - a) = (2 ^ 32 + (b - a)) mod 2 ^ 32" by (simp only: u32_def)
  also have "\<dots> = (b - a) mod 2 ^ 32" by (rule mod_add_self1)
  also have "\<dots> = b - a" using assms(2) by (intro mod_less) simp
  finally show ?thesis .
qed

lemma emit_inv:
  assumes SQ: "\<And>t. config t = config s0 \<Longrightarrow> Q (spawned t)"
    and "pool_inv s xs" "config_ok s" "all_particles Q s xs" "config s = config s0"
  shows "\<exists>s' ys. emit n s = Some s' \<and> pool_inv s' ys \<and> all_particles Q s' ys \<and>
           settings s' = settings s \<and>
           activeParticles s' =
             (if active s then min (maxParticles s) (activeParticles s + n) else activeParticles s)"
proof (cases "active s")
  case False
  then show ?thesis using assms(2,4) by (intro exI[of _ s] exI[of _ xs]) (simp add: emit_def)
next
  case True
  have b: "activeParticles s \<le> maxParticles s" "maxParticles s < 2 ^ 32"
    using assms(2) by (simp_all add: pool_inv_def)
  define k where "k = min n (maxParticles s - activeParticles s)"
  have e: "emit n s = emit_loop k s"
    using True u32_sub[OF b] by (simp add: emit_def k_def)
  obtain s' ys where r: "emit_loop k s = Some s'" "pool_inv s' ys" "all_particles Q s' ys"
    "settings s' = settings s" "activeParticles s' = min (maxParticles s) (activeParticles s + k)"
    using emit_loop_inv[where Q = Q and ?s0.0 = s0 and k = k, OF SQ assms(2,3,4,5)] by blast
  have "min (maxParticles s) (activeParticles s + k) = min (maxParticles s) (activeParticles s + n)"
    using b(1) by (auto simp: k_def min_def)
  then show ?thesis using r e True by (intro exI[of _ s'] exI[of _ ys]) simp
qed


subsection \<open>The emission loop\<close>

text \<open>
  The loop need not end: the rate may be \<open>-\<infinity>\<close> (a rate of \<^verbatim>\<open>-0.0f\<close>), or so small that
  \<^verbatim>\<open>emitCounter - rate\<close> rounds to \<^verbatim>\<open>emitCounter\<close>. \<open>emission_run n\<close> follows it for \<open>n\<close>
  iterations: every iteration is defined and keeps the invariant, and the loop returns
  exactly when some \<open>emission_run n\<close> reaches a state in which the condition is false.
\<close>

lemma emission_body_inv:
  assumes SQ: "\<And>t. config t = config s0 \<Longrightarrow> Q (spawned t)"
    and "pool_inv s xs" "config_ok s" "all_particles Q s xs" "config s = config s0"
  shows "\<exists>s' ys. emission_body rate el s = Some s' \<and> pool_inv s' ys \<and> config_ok s' \<and>
           all_particles Q s' ys \<and> config s' = config s0 \<and> life s' = life s \<and>
           active s' = active s \<and> emitCounter s' = f_sub (emitCounter s) rate \<and>
           activeParticles s' = min (maxParticles s) (activeParticles s + 1)"
proof -
  obtain s1 ys where s1:
    "addParticle (f_sub (Finite 1) (f_div (f_sub (emitCounter s) rate) el)) s = Some s1"
    "pool_inv s1 ys" "all_particles Q s1 ys" "settings s1 = settings s"
    "activeParticles s1 = min (maxParticles s) (activeParticles s + 1)"
    using addParticle_all[OF assms(2,3,4) SQ[OF assms(5)]] by blast
  note f1 = settings_fields[OF s1(4)]
  define s2 where "s2 = s1\<lparr>emitCounter := f_sub (emitCounter s1) rate\<rparr>"
  have c2: "config s2 = config s0"
    using config_of_settings[OF s1(4)] assms(5) by (simp add: s2_def)
  have ok2: "config_ok s2" using config_ok_config[of s2 s] c2 assms(3,5) by simp
  have "emission_body rate el s = Some s2" using s1(1) by (simp add: emission_body_def s2_def)
  then show ?thesis using s1(2,3,5) c2 ok2 f1(1,5,7)
    by (intro exI[of _ s2] exI[of _ ys]) (simp add: s2_def)
qed

lemma emission_run_inv:
  assumes SQ: "\<And>t. config t = config s0 \<Longrightarrow> Q (spawned t)"
  shows "pool_inv s xs \<Longrightarrow> config_ok s \<Longrightarrow> all_particles Q s xs \<Longrightarrow> config s = config s0 \<Longrightarrow>
     \<exists>s' ys k. emission_run n rate el s = Some s' \<and> pool_inv s' ys \<and> config_ok s' \<and>
        all_particles Q s' ys \<and> config s' = config s0 \<and> life s' = life s \<and>
        active s' = active s \<and> k \<le> n \<and>
        activeParticles s' = min (maxParticles s) (activeParticles s + k)"
proof (induction n arbitrary: s xs)
  case 0
  have "activeParticles s \<le> maxParticles s" using 0(1) by (simp add: pool_inv_def)
  then show ?case using 0 by (intro exI[of _ s] exI[of _ xs] exI[of _ 0]) simp
next
  case (Suc n)
  show ?case
  proof (cases "f_less rate (emitCounter s)")
    case False
    have "activeParticles s \<le> maxParticles s" using Suc.prems(1) by (simp add: pool_inv_def)
    then show ?thesis using False Suc.prems
      by (intro exI[of _ s] exI[of _ xs] exI[of _ 0]) simp
  next
    case True
    obtain s1 ys where s1: "emission_body rate el s = Some s1" "pool_inv s1 ys" "config_ok s1"
      "all_particles Q s1 ys" "config s1 = config s0" "life s1 = life s" "active s1 = active s"
      "activeParticles s1 = min (maxParticles s) (activeParticles s + 1)"
      using emission_body_inv[where Q = Q and rate = rate and el = el, OF SQ Suc.prems] by blast
    obtain s' zs k where r: "emission_run n rate el s1 = Some s'" "pool_inv s' zs" "config_ok s'"
      "all_particles Q s' zs" "config s' = config s0" "life s' = life s1" "active s' = active s1"
      "k \<le> n" "activeParticles s' = min (maxParticles s1) (activeParticles s1 + k)"
      using Suc.IH[OF s1(2,3,4,5)] by blast
    have m: "maxParticles s1 = maxParticles s"
      using config_fields(2)[of s1 s] s1(5) Suc.prems(4) by simp
    have "emission_run (Suc n) rate el s = Some s'" using True s1(1) r(1) by simp
    moreover have "activeParticles s' = min (maxParticles s) (activeParticles s + Suc k)"
      using r(9) s1(8) m by (simp add: min_def)
    ultimately show ?thesis using r(2-8) s1(6,7)
      by (intro exI[of _ s'] exI[of _ zs] exI[of _ "Suc k"]) simp
  qed
qed

lemma emission_loop_run:
  "emission_run n rate el s = Some t \<Longrightarrow> \<not> f_less rate (emitCounter t) \<Longrightarrow>
     emission_loop rate el s = Some t"
proof (induction n arbitrary: s)
  case 0
  then show ?case by (subst emission_loop.simps) simp
next
  case (Suc n)
  show ?case
  proof (cases "f_less rate (emitCounter s)")
    case False
    then show ?thesis using Suc.prems by (subst emission_loop.simps) simp
  next
    case True
    then obtain s1 where s1: "emission_body rate el s = Some s1"
      "emission_run n rate el s1 = Some t"
      using Suc.prems(1) by (cases "emission_body rate el s") simp_all
    have "emission_loop rate el s1 = Some t" using Suc.IH[OF s1(2) Suc.prems(2)] .
    then show ?thesis using True s1(1) by (subst emission_loop.simps) simp
  qed
qed

lemma emission_loop_exits:
  assumes "emission_loop rate el s = Some t"
  shows "\<exists>n. emission_run n rate el s = Some t \<and> \<not> f_less rate (emitCounter t)"
proof (rule emission_loop.raw_induct[where P = "\<lambda>rate el s t.
         \<exists>n. emission_run n rate el s = Some t \<and> \<not> f_less rate (emitCounter t)", OF _ assms])
  fix f rate el s t
  assume IH: "\<And>rate el s t. f rate el s = Some t \<Longrightarrow>
                \<exists>n. emission_run n rate el s = Some t \<and> \<not> f_less rate (emitCounter t)"
    and step: "(if f_less rate (emitCounter s)
                then do { s1 \<leftarrow> emission_body rate el s; f rate el s1 } else Some s) = Some t"
  show "\<exists>n. emission_run n rate el s = Some t \<and> \<not> f_less rate (emitCounter t)"
  proof (cases "f_less rate (emitCounter s)")
    case False
    then have "emission_run 0 rate el s = Some t \<and> \<not> f_less rate (emitCounter t)"
      using step by simp
    then show ?thesis by blast
  next
    case True
    then obtain s1 where s1: "emission_body rate el s = Some s1" "f rate el s1 = Some t"
      using step by (cases "emission_body rate el s") simp_all
    obtain n where "emission_run n rate el s1 = Some t" "\<not> f_less rate (emitCounter t)"
      using IH[OF s1(2)] by blast
    then have "emission_run (Suc n) rate el s = Some t \<and> \<not> f_less rate (emitCounter t)"
      using True s1(1) by simp
    then show ?thesis by blast
  qed
qed

definition emitter_rate :: "ParticleSystem \<Rightarrow> float" where
  \<comment> \<open>\<^verbatim>\<open>float rate = 1.0f / emissionRate\<close>\<close>
  "emitter_rate s = f_div (Finite 1) (emissionRate s)"

definition emitter_loop :: "real \<Rightarrow> ParticleSystem \<Rightarrow> ParticleSystem option" where
  \<comment> \<open>the emission loop of \<open>update_emitter dt s\<close>\<close>
  "emitter_loop dt s =
     emission_loop (emitter_rate s) (f_sub (emitCounter (emitter_start dt s)) (emitter_rate s))
       (emitter_start dt s)"

definition emitter_run :: "nat \<Rightarrow> real \<Rightarrow> ParticleSystem \<Rightarrow> ParticleSystem option" where
  \<comment> \<open>the same loop, cut off after \<open>n\<close> iterations\<close>
  "emitter_run n dt s =
     emission_run n (emitter_rate s) (f_sub (emitCounter (emitter_start dt s)) (emitter_rate s))
       (emitter_start dt s)"

lemma update_emitter_loop:
  "update_emitter dt s = map_option (emitter_end dt) (emitter_loop dt s)"
  by (cases "emitter_loop dt s")
    (simp_all add: update_emitter_def emitter_loop_def emitter_rate_def Let_def)

lemma emitter_start_simps [simp]:
  "pool_inv (emitter_start dt s) xs = pool_inv s xs"
  "all_particles Q (emitter_start dt s) xs = all_particles Q s xs"
  "config (emitter_start dt s) = config s"
  "life (emitter_start dt s) = life s" "active (emitter_start dt s) = active s"
  "activeParticles (emitter_start dt s) = activeParticles s"
  "maxParticles (emitter_start dt s) = maxParticles s"
  "emitCounter (emitter_start dt s) = f_add (emitCounter s) (Finite dt)"
  by (simp_all add: emitter_start_def)

lemma emitter_end_simps [simp]:
  "pool_inv (emitter_end dt t) ys = pool_inv t ys"
  "all_particles Q (emitter_end dt t) ys = all_particles Q t ys"
  "config (emitter_end dt t) = config t"
  "activeParticles (emitter_end dt t) = activeParticles t"
  by (simp_all add: emitter_end_def stop_def Let_def)

lemma emitter_end_life:
  "if lifetime t \<noteq> - 1 \<and> life t - dt < 0
   then \<not> active (emitter_end dt t) \<and> life (emitter_end dt t) = lifetime t \<and>
        emitCounter (emitter_end dt t) = Finite 0
   else active (emitter_end dt t) = active t \<and> life (emitter_end dt t) = life t - dt \<and>
        emitCounter (emitter_end dt t) = emitCounter t"
  by (simp add: emitter_end_def stop_def Let_def)

lemma emitter_run_inv:
  assumes SQ: "\<And>t. config t = config s0 \<Longrightarrow> Q (spawned t)"
    and "pool_inv s xs" "config_ok s" "all_particles Q s xs" "config s = config s0"
  shows "\<exists>t ys k. emitter_run n dt s = Some t \<and> pool_inv t ys \<and> config_ok t \<and>
           all_particles Q t ys \<and> config t = config s0 \<and> life t = life s \<and>
           active t = active s \<and> k \<le> n \<and>
           activeParticles t = min (maxParticles s) (activeParticles s + k)"
proof -
  have ok: "config_ok (emitter_start dt s)"
    using config_ok_config[of "emitter_start dt s" s] assms(3) by simp
  show ?thesis
    unfolding emitter_run_def
    using emission_run_inv[where Q = Q and ?s0.0 = s0 and s = "emitter_start dt s" and xs = xs
        and n = n, OF SQ] assms(2,4,5) ok
    by simp
qed

lemma emitter_loop_returns:
  "emitter_loop dt s = Some t \<longleftrightarrow>
     (\<exists>n. emitter_run n dt s = Some t \<and> \<not> f_less (emitter_rate s) (emitCounter t))"
  unfolding emitter_loop_def emitter_run_def
  using emission_loop_exits emission_loop_run by blast

lemma emitter_loop_stalls:
  assumes SQ: "\<And>t. config t = config s0 \<Longrightarrow> Q (spawned t)"
    and "pool_inv s xs" "config_ok s" "all_particles Q s xs" "config s = config s0"
  shows "emitter_loop dt s = None \<longleftrightarrow>
     (\<forall>n. \<exists>t. emitter_run n dt s = Some t \<and> f_less (emitter_rate s) (emitCounter t))"
proof
  assume none: "emitter_loop dt s = None"
  show "\<forall>n. \<exists>t. emitter_run n dt s = Some t \<and> f_less (emitter_rate s) (emitCounter t)"
  proof
    fix n
    obtain t where t: "emitter_run n dt s = Some t"
      using emitter_run_inv[where Q = Q and n = n and dt = dt, OF assms] by blast
    then have "f_less (emitter_rate s) (emitCounter t)"
      using none emitter_loop_returns[of dt s t] by auto
    then show "\<exists>t. emitter_run n dt s = Some t \<and> f_less (emitter_rate s) (emitCounter t)"
      using t by blast
  qed
next
  assume st: "\<forall>n. \<exists>t. emitter_run n dt s = Some t \<and> f_less (emitter_rate s) (emitCounter t)"
  show "emitter_loop dt s = None"
  proof (cases "emitter_loop dt s")
    case None
    then show ?thesis .
  next
    case (Some t)
    then obtain n where "emitter_run n dt s = Some t" "\<not> f_less (emitter_rate s) (emitCounter t)"
      using emitter_loop_returns[of dt s t] by blast
    then show ?thesis using st by (metis option.inject)
  qed
qed

subsection \<open>The tick, and sequences of calls\<close>

lemma pool_inv_head: "pool_inv s xs \<Longrightarrow> pHead s = first_of xs"
  by (auto simp: pool_inv_def listed_def linked_def split: option.splits)

lemma update_split:
  assumes PQ: "\<And>x sz c q. P x \<Longrightarrow> 0 < p_life x - dt \<Longrightarrow>
                 Q (x\<lparr>p_life := p_life x - dt, p_size := sz, p_color := c, p_quadIndex := q\<rparr>)"
    and PW: "\<And>x. P x \<Longrightarrow> window_ok x"
    and dt: "0 < dt"
    and "pool_inv s xs" "config_ok s" "all_particles P s xs" "config s = config s0"
  shows "\<exists>s1 xs1.
     update_particles dt (pHead s) s = Some s1 \<and> pool_inv s1 xs1 \<and> all_particles Q s1 xs1 \<and>
     config_ok s1 \<and> settings s1 = settings s \<and> config s1 = config s0 \<and>
     length xs1 \<le> length xs \<and>
     ((\<forall>x\<in>set xs. dt < p_life (the (pMem s) ! x)) \<longrightarrow> length xs1 = length xs) \<and>
     update dt s =
       (if active s then map_option (emitter_end dt) (emitter_loop dt s1) else Some s1)"
proof -
  have dt0: "0 \<le> dt" "dt \<noteq> 0" using dt by simp_all
  have mem: "pMem s \<noteq> None" using assms(4) by (auto simp: pool_inv_def listed_def)
  have inv: "pool_inv s ([] @ xs)" using assms(4) by simp
  obtain s1 xs1 where s1: "update_particles dt (first_of xs) s = Some s1" "pool_inv s1 xs1"
    "all_particles Q s1 xs1" "settings s1 = settings s" "length xs1 \<le> length ([] @ xs)"
    "(\<forall>x\<in>set xs. dt < p_life (the (pMem s) ! x)) \<longrightarrow> length xs1 = length ([] @ xs)"
    using update_particles_inv[where P = P and Q = Q and us = "[]" and vs = xs and s = s and dt = dt,
        OF PQ PW dt0(1) inv assms(5) _ assms(6)]
    by auto
  note f1 = settings_fields[OF s1(4)]
  have c1: "config s1 = config s0" using config_of_settings[OF s1(4)] assms(7) by simp
  have ok1: "config_ok s1" using config_ok_settings[OF s1(4)] assms(5) by simp
  have "update dt s = (if active s1 then update_emitter dt s1 else Some s1)"
    using mem dt0(2) s1(1) pool_inv_head[OF assms(4)] by (auto simp: update_def)
  then have "update dt s =
      (if active s then map_option (emitter_end dt) (emitter_loop dt s1) else Some s1)"
    using f1(1) by (simp add: update_emitter_loop)
  then show ?thesis using s1 c1 ok1 pool_inv_head[OF assms(4)]
    by (intro exI[of _ s1] exI[of _ xs1]) simp
qed

datatype call = Emit nat | Update real

fun step_call :: "call \<Rightarrow> ParticleSystem \<Rightarrow> ParticleSystem option" where
  "step_call (Emit n) s = emit n s"
| "step_call (Update dt) s = update dt s"

fun run :: "call list \<Rightarrow> ParticleSystem \<Rightarrow> ParticleSystem option" where
  "run [] s = Some s"
| "run (c # cs) s = do { s' \<leftarrow> step_call c s; run cs s' }"

fun call_ok :: "call \<Rightarrow> bool" where
  "call_ok (Emit n) = True"
| "call_ok (Update dt) = (0 \<le> dt)"

fun walk :: "nat \<Rightarrow> Particle list \<Rightarrow> nat option \<Rightarrow> nat list option" where
  "walk n m None = Some []"
| "walk 0 m (Some p) = None"
| "walk (Suc n) m (Some p) =
     (if p < length m then map_option ((#) p) (walk n m (p_next (m ! p))) else None)"

definition active_list :: "ParticleSystem \<Rightarrow> nat list option" where
  \<comment> \<open>the slots visited from \<^verbatim>\<open>pHead\<close> along \<^verbatim>\<open>next\<close>, as the loops of \<^verbatim>\<open>update\<close> and
      \<^verbatim>\<open>draw\<close> visit them; \<open>None\<close> when the walk leaves the array or does not end\<close>
  "active_list s = (case pMem s of None \<Rightarrow> None | Some m \<Rightarrow> walk (length m) m (pHead s))"

definition free_slots_unlinked :: "ParticleSystem \<Rightarrow> nat list \<Rightarrow> bool" where
  "free_slots_unlinked s xs \<longleftrightarrow>
     (\<forall>i. pFree s \<le> i \<longrightarrow>
        i \<notin> set xs \<and> pHead s \<noteq> Some i \<and> pTail s \<noteq> Some i \<and>
        (\<forall>x\<in>set xs. p_next (the (pMem s) ! x) \<noteq> Some i \<and> p_prev (the (pMem s) ! x) \<noteq> Some i))"

definition sys_inv :: "ParticleSystem \<Rightarrow> nat list \<Rightarrow> bool" where
  "sys_inv s xs \<longleftrightarrow> pool_inv s xs \<and> all_particles window_ok s xs \<and> config_ok s"

lemma walk_linked:
  assumes "linked m h (us @ vs)" "distinct (us @ vs)" "length vs \<le> n"
  shows "walk n m (first_of vs) = Some vs"
  using assms
proof (induction vs arbitrary: us n)
  case Nil
  then show ?case by simp
next
  case (Cons v vs)
  obtain k where k: "n = Suc k" using Cons.prems(3) by (cases n) auto
  have v: "v < length m" "p_next (m ! v) = first_of vs"
    using Cons.prems(1,2)
    by (auto simp: linked_def succ_in_append succ_in_Cons dest: last_of_in_set)
  have "walk k m (first_of vs) = Some vs"
    using Cons.IH[of "us @ [v]" k] Cons.prems k by simp
  then show ?case using k v by simp
qed

lemma pool_inv_active_list:
  assumes "pool_inv s xs"
  shows "active_list s = Some xs"
proof -
  obtain m where m: "pMem s = Some m" "distinct xs" "linked m (pHead s) xs"
    "length m = maxParticles s"
    using assms by (auto simp: pool_inv_def listed_def split: option.splits)
  have "length xs \<le> length m"
    using pool_inv_count[OF assms] assms m(4) by (simp add: pool_inv_def)
  then have "walk (length m) m (first_of xs) = Some xs"
    using walk_linked[of m "pHead s" "[]" xs] m by simp
  then show ?thesis using m pool_inv_head[OF assms] by (simp add: active_list_def)
qed

lemma pool_inv_unlinked:
  assumes "pool_inv s xs"
  shows "free_slots_unlinked s xs"
proof -
  obtain m where m: "pMem s = Some m" "distinct xs" "linked m (pHead s) xs"
    "tail_ok (insertMode s = INSERT_MODE_RANDOM) (pTail s) xs" "set xs = {0..<pFree s}"
    using assms by (auto simp: pool_inv_def listed_def split: option.splits)
  have in_xs: "i \<notin> set xs" if "pFree s \<le> i" for i using that m(5) by simp
  have "pHead s \<noteq> Some i" if "i \<notin> set xs" for i
    using that m(3) by (auto simp: linked_def dest: first_of_in_set)
  moreover have "pTail s \<noteq> Some i" if "i \<notin> set xs" for i
    using that m(4) by (auto simp: tail_ok_def dest: last_of_in_set)
  moreover have "p_next (m ! x) \<noteq> Some i \<and> p_prev (m ! x) \<noteq> Some i"
    if "i \<notin> set xs" "x \<in> set xs" for i x
    using that m(3) by (auto simp: linked_def dest: succ_in_in_set pred_in_in_set)
  ultimately show ?thesis using in_xs m(1) by (simp add: free_slots_unlinked_def)
qed

lemma window_ok_aged:
  assumes "window_ok x" "0 \<le> dt"
  shows "window_ok (x\<lparr>p_life := p_life x - dt, p_size := sz, p_color := c, p_quadIndex := q\<rparr>)"
  using assms by (simp add: window_ok_def)


definition update_stalls :: "real \<Rightarrow> ParticleSystem \<Rightarrow> bool" where
  \<comment> \<open>\<open>update dt s\<close> does not return because its emission loop does not end: the particle
      loop returns, the emitter is active, and after any number of iterations of the
      emission loop the condition of the loop still holds, in a state that satisfies the
      invariant\<close>
  "update_stalls dt s \<longleftrightarrow>
     (\<exists>s1. update_particles dt (pHead s) s = Some s1 \<and> active s1 \<and>
        (\<forall>n. \<exists>t ys. emitter_run n dt s1 = Some t \<and> f_less (emitter_rate s1) (emitCounter t) \<and>
                sys_inv t ys \<and> config t = config s))"

lemma update_sys_inv:
  assumes "sys_inv s xs" "0 < dt"
  shows "(\<forall>s'. update dt s = Some s' \<longrightarrow>
            (\<exists>ys. sys_inv s' ys \<and> config s' = config s)) \<and>
         (update dt s = None \<longleftrightarrow> update_stalls dt s)"
proof -
  have inv: "pool_inv s xs" "config_ok s" "all_particles window_ok s xs"
    using assms(1) by (simp_all add: sys_inv_def)
  have SQ: "window_ok (spawned t)" if "config t = config s" for t
    using that inv(2) config_ok_config[OF that] window_ok_spawned by simp
  have PQ: "window_ok (x\<lparr>p_life := p_life x - dt, p_size := sz, p_color := c, p_quadIndex := q\<rparr>)"
    if "window_ok x" "0 < p_life x - dt" for x sz c q
    using that(1) assms(2) by (intro window_ok_aged) simp_all
  obtain s1 xs1 where s1: "update_particles dt (pHead s) s = Some s1" "pool_inv s1 xs1"
    "all_particles window_ok s1 xs1" "config_ok s1" "settings s1 = settings s"
    "config s1 = config s"
    "update dt s = (if active s then map_option (emitter_end dt) (emitter_loop dt s1) else Some s1)"
    using update_split[where P = window_ok and Q = window_ok and ?s0.0 = s and s = s and xs = xs
        and dt = dt, OF PQ _ assms(2) inv refl]
    by auto
  note f1 = settings_fields[OF s1(5)]
  have runs: "\<exists>t ys. emitter_run n dt s1 = Some t \<and> sys_inv t ys \<and> config t = config s"
    for n
  proof -
    obtain t ys where t: "emitter_run n dt s1 = Some t" "pool_inv t ys" "config_ok t"
      "all_particles window_ok t ys" "config t = config s"
      using emitter_run_inv[where Q = window_ok and ?s0.0 = s and n = n and dt = dt,
          OF SQ s1(2,4,3,6)] by blast
    then show ?thesis by (auto simp: sys_inv_def)
  qed
  show ?thesis
  proof (cases "active s")
    case False
    then have u: "update dt s = Some s1" using s1(7) by simp
    have "\<not> update_stalls dt s" using s1(1) f1(1) False by (simp add: update_stalls_def)
    then show ?thesis using u s1(2,3,4,6) by (auto simp: sys_inv_def)
  next
    case True
    then have u: "update dt s = map_option (emitter_end dt) (emitter_loop dt s1)"
      using s1(7) by simp
    have a: "(\<forall>s'. update dt s = Some s' \<longrightarrow>
            (\<exists>ys. sys_inv s' ys \<and> config s' = config s))"
    proof (intro allI impI)
      fix s' assume "update dt s = Some s'"
      then obtain t where t: "emitter_loop dt s1 = Some t" "s' = emitter_end dt t"
        using u by auto
      then obtain n where "emitter_run n dt s1 = Some t"
        using emitter_loop_returns[of dt s1 t] by blast
      then obtain ys where ys: "sys_inv t ys" "config t = config s"
        using runs[of n] by auto
      have "config (emitter_end dt t) = config t" by simp
      then have "config_ok (emitter_end dt t) = config_ok t"
        using config_ok_config[of "emitter_end dt t" t] by simp
      then have "sys_inv s' ys \<and> config s' = config s"
        using ys t(2) by (simp add: sys_inv_def)
      then show "\<exists>ys. sys_inv s' ys \<and> config s' = config s" by blast
    qed
    have stall: "emitter_loop dt s1 = None \<longleftrightarrow>
       (\<forall>n. \<exists>t. emitter_run n dt s1 = Some t \<and> f_less (emitter_rate s1) (emitCounter t))"
      using emitter_loop_stalls[where Q = window_ok and ?s0.0 = s and dt = dt,
          OF SQ s1(2,4,3,6)] .
    have b: "update dt s = None \<longleftrightarrow> update_stalls dt s"
    proof
      assume "update dt s = None"
      then have "emitter_loop dt s1 = None" using u by simp
      then have "\<forall>n. \<exists>t ys. emitter_run n dt s1 = Some t \<and>
          f_less (emitter_rate s1) (emitCounter t) \<and> sys_inv t ys \<and> config t = config s"
        using stall runs by (metis option.inject)
      then show "update_stalls dt s" using s1(1) f1(1) True by (auto simp: update_stalls_def)
    next
      assume "update_stalls dt s"
      then have "\<forall>n. \<exists>t. emitter_run n dt s1 = Some t \<and> f_less (emitter_rate s1) (emitCounter t)"
        using s1(1) unfolding update_stalls_def by (metis option.inject)
      then have "emitter_loop dt s1 = None" using stall by simp
      then show "update dt s = None" using u by simp
    qed
    show ?thesis using a b by simp
  qed
qed

lemma step_call_inv:
  assumes "sys_inv s xs" "call_ok c"
  shows "(\<forall>s'. step_call c s = Some s' \<longrightarrow> (\<exists>ys. sys_inv s' ys \<and> config s' = config s)) \<and>
         (step_call c s = None \<longrightarrow> (\<exists>dt. c = Update dt \<and> update_stalls dt s))"
proof (cases c)
  case (Emit n)
  obtain s' ys where r: "emit n s = Some s'" "pool_inv s' ys" "all_particles window_ok s' ys"
    "settings s' = settings s"
    using emit_inv[where Q = window_ok and ?s0.0 = s and s = s and xs = xs and n = n] assms(1)
      window_ok_spawned config_ok_config
    unfolding sys_inv_def by metis
  then show ?thesis using Emit assms(1) config_ok_settings[OF r(4)] config_of_settings[OF r(4)]
    by (auto simp: sys_inv_def)
next
  case (Update dt)
  show ?thesis
  proof (cases "dt = 0")
    case True
    then show ?thesis using Update assms(1) by (auto simp: update_def)
  next
    case False
    then have dt: "0 < dt" using assms(2) Update by simp
    show ?thesis using update_sys_inv[OF assms(1) dt] Update by auto
  qed
qed

lemma run_inv:
  "sys_inv s xs \<Longrightarrow> list_all call_ok cs \<Longrightarrow>
     (\<forall>s'. run cs s = Some s' \<longrightarrow> (\<exists>ys. sys_inv s' ys \<and> config s' = config s)) \<and>
     (run cs s = None \<longrightarrow>
        (\<exists>k dt sk ys. k < length cs \<and> cs ! k = Update dt \<and> run (take k cs) s = Some sk \<and>
           sys_inv sk ys \<and> config sk = config s \<and> update_stalls dt sk))"
proof (induction cs arbitrary: s xs)
  case Nil
  then show ?case by auto
next
  case (Cons c cs)
  note st = step_call_inv[OF Cons.prems(1), of c]
  have ok: "call_ok c" "list_all call_ok cs" using Cons.prems(2) by simp_all
  show ?case
  proof (cases "step_call c s")
    case None
    then obtain dt where dt: "c = Update dt" "update_stalls dt s" using st ok(1) by blast
    have "0 < length (c # cs) \<and> (c # cs) ! 0 = Update dt \<and>
        run (take 0 (c # cs)) s = Some s \<and> sys_inv s xs \<and> config s = config s \<and>
        update_stalls dt s"
      using Cons.prems(1) dt by simp
    then have "\<exists>k dt sk ys. k < length (c # cs) \<and> (c # cs) ! k = Update dt \<and>
           run (take k (c # cs)) s = Some sk \<and> sys_inv sk ys \<and>
           config sk = config s \<and> update_stalls dt sk"
      by (intro exI[of _ 0] exI[of _ dt] exI[of _ s] exI[of _ xs])
    moreover have "run (c # cs) s = None" using None by simp
    ultimately show ?thesis by simp
  next
    case (Some s1)
    then obtain ys where s1: "sys_inv s1 ys" "config s1 = config s"
      using st ok(1) by blast
    note ih = Cons.IH[OF s1(1) ok(2)]
    have r: "run (c # cs) s = run cs s1" using Some by simp
    have a: "\<forall>s'. run (c # cs) s = Some s' \<longrightarrow>
        (\<exists>ys. sys_inv s' ys \<and> config s' = config s)"
      using conjunct1[OF ih] s1(2) r by simp
    have b: "\<exists>k dt sk ys. k < length (c # cs) \<and> (c # cs) ! k = Update dt \<and>
           run (take k (c # cs)) s = Some sk \<and> sys_inv sk ys \<and>
           config sk = config s \<and> update_stalls dt sk"
      if n: "run (c # cs) s = None"
    proof -
      have "\<exists>k dt sk ys. k < length cs \<and> cs ! k = Update dt \<and> run (take k cs) s1 = Some sk \<and>
           sys_inv sk ys \<and> config sk = config s1 \<and> update_stalls dt sk"
        using conjunct2[OF ih] n r by simp
      then obtain k dt sk zs where k: "k < length cs" "cs ! k = Update dt"
        "run (take k cs) s1 = Some sk" "sys_inv sk zs" "config sk = config s1"
        "update_stalls dt sk"
        by (elim exE conjE)
      have "Suc k < length (c # cs) \<and> (c # cs) ! Suc k = Update dt \<and>
           run (take (Suc k) (c # cs)) s = Some sk \<and> sys_inv sk zs \<and>
           config sk = config s \<and> update_stalls dt sk"
        using k Some s1(2) by simp
      then show ?thesis
        by (intro exI[of _ "Suc k"] exI[of _ dt] exI[of _ sk] exI[of _ zs])
    qed
    show ?thesis
    proof (intro conjI impI)
      show "\<forall>s'. run (c # cs) s = Some s' \<longrightarrow>
        (\<exists>ys. sys_inv s' ys \<and> config s' = config s)" by (rule a)
      show "\<exists>k dt sk ys. k < length (c # cs) \<and> (c # cs) ! k = Update dt \<and>
           run (take k (c # cs)) s = Some sk \<and> sys_inv sk ys \<and>
           config sk = config s \<and> update_stalls dt sk"
        if "run (c # cs) s = None" using b[OF that] .
    qed
  qed
qed

section \<open>Emission at a constant rate\<close>

subsection \<open>Evaluating the binary32 operations\<close>

lemma pow2_powr: "pow2 e = 2 powr (of_int e)"
proof (cases "0 \<le> e")
  case True
  then have "2 powr (of_int e) = (2::real) ^ nat e"
    by (metis of_int_of_nat_eq of_nat_nat powr_realpow zero_less_numeral)
  then show ?thesis using True by (simp add: pow2_def)
next
  case False
  then have "of_int e = - real (nat (- e))" by simp
  then have "2 powr (of_int e) = 1 / (2::real) ^ nat (- e)"
    by (simp only: powr_minus_divide powr_realpow zero_less_numeral)
  then show ?thesis using False by (simp add: pow2_def)
qed

lemma pow2_less: "e < e' \<Longrightarrow> pow2 e < pow2 e'"
  by (simp add: pow2_powr)

lemma pow2_le: "e \<le> e' \<Longrightarrow> pow2 e \<le> pow2 e'"
  by (simp add: pow2_powr)

lemma exponent_eq:
  assumes "pow2 e \<le> \<bar>x\<bar>" "\<bar>x\<bar> < pow2 (e + 1)" "- 126 \<le> e" "e \<le> 127"
  shows "exponent x = e"
proof -
  have "pow2 (- 126) \<le> \<bar>x\<bar>" using pow2_le[OF assms(3)] assms(1) by simp
  then have n: "\<not> \<bar>x\<bar> < pow2 (- 126)" by simp
  have "Max (Set.filter (\<lambda>e. pow2 e \<le> \<bar>x\<bar>) {- 126..127}) = e"
  proof (rule Max_eqI)
    show "finite (Set.filter (\<lambda>e. pow2 e \<le> \<bar>x\<bar>) {- 126..127})"
      by (rule finite_subset[where B = "{- 126..127}"]) auto
    show "e \<in> Set.filter (\<lambda>e. pow2 e \<le> \<bar>x\<bar>) {- 126..127}" using assms by simp
    fix y assume "y \<in> Set.filter (\<lambda>e. pow2 e \<le> \<bar>x\<bar>) {- 126..127}"
    then have "pow2 y < pow2 (e + 1)" using assms(2) by simp
    then have "\<not> e + 1 \<le> y" using pow2_le[of "e + 1" y] by auto
    then show "y \<le> e" by simp
  qed
  then show ?thesis using n by (simp add: exponent_def)
qed

lemma fl32_normal:
  assumes "pow2 e \<le> \<bar>x\<bar>" "\<bar>x\<bar> < pow2 (e + 1)" "- 126 \<le> e" "e \<le> 127"
    and "round_even (x / pow2 (e - 23)) = n" "n \<noteq> 0" "\<bar>of_int n * pow2 (e - 23)\<bar> < pow2 128"
  shows "fl32 x = Finite (of_int n * pow2 (e - 23))"
proof -
  have "0 < pow2 (e - 23)" by (simp add: pow2_powr)
  then have "of_int n * pow2 (e - 23) \<noteq> 0" using assms(6) by simp
  then show ?thesis
    using exponent_eq[OF assms(1-4)] assms(5,7) by (simp add: fl32_def Let_def)
qed

lemma fl32_zero [simp]: "fl32 0 = Finite 0"
  by (simp add: fl32_def round_even_def Let_def pow2_def)

lemma f_less_Finite [simp]: "f_less (Finite x) (Finite y) \<longleftrightarrow> x < y"
  by (simp add: f_less_def the_real_def)

lemma f_less_PlusInfinity [simp]: "\<not> f_less PlusInfinity a"
  by (simp add: f_less_def)

lemma f_less_MinusInfinity: "f_less MinusInfinity a \<longleftrightarrow> a \<noteq> MinusInfinity \<and> a \<noteq> NaN"
  by (auto simp: f_less_def)

lemma f_add_Finite: "y \<noteq> 0 \<Longrightarrow> f_add (Finite x) (Finite y) = fl32 (x + y)"
  by (simp add: f_add_def is_infinite_def is_zero_def the_real_def)


lemma f_sub_MinusInfinity:
  "a \<noteq> MinusInfinity \<Longrightarrow> a \<noteq> NaN \<Longrightarrow> f_sub a MinusInfinity = PlusInfinity"
  by (cases a) (simp_all add: f_sub_def f_neg_def f_add_def is_infinite_def)

lemma emitter_rate_zero [simp]:
  "emissionRate s = Finite 0 \<Longrightarrow> emitter_rate s = PlusInfinity"
  "emissionRate s = NegZero \<Longrightarrow> emitter_rate s = MinusInfinity"
  by (simp_all add: emitter_rate_def f_div_def is_infinite_def is_zero_def negative_def)

subsection \<open>A scheduler whose arithmetic is exact\<close>











section \<open>Boundary values of the curves\<close>

lemma emit_one: "emit_loop (Suc 0) s = addParticle (Finite 1) s"
  by (cases "addParticle (Finite 1) s") simp_all

lemma color_blend_ends:
  "color_add (color_scale x 1) (color_scale y 0) = x"
  "color_add (color_scale x (1 - 0)) (color_scale y 0) = x"
  by (cases x; cases y; simp)+

lemma to_size_t_of_nat: "n < 2 ^ 64 \<Longrightarrow> to_size_t (real n) = Some n"
  by (simp add: to_size_t_def)

lemma color_curve_ends:
  assumes "cs \<noteq> []" "length cs \<le> 2 ^ 64"
  shows "color_curve cs 0 = Some (cs ! 0)" "color_curve cs 1 = Some (last cs)"
proof -
  have n: "length cs - 1 < 2 ^ 64" "length cs - 1 < length cs" "0 < length cs"
    using assms by (simp_all add: Suc_le_eq less_imp_diff_less)
  have z: "to_size_t 0 = Some 0" using to_size_t_of_nat[of 0] by simp
  show "color_curve cs 0 = Some (cs ! 0)"
    using n assms(1) by (simp add: color_curve_def z vec_at_def size_t_minus1_def color_blend_ends)
  show "color_curve cs 1 = Some (last cs)"
    using n assms(1) to_size_t_of_nat[OF n(1)]
    by (simp add: color_curve_def vec_at_def size_t_minus1_def color_blend_ends last_conv_nth)
qed

lemma size_curve_ends:
  assumes "szs \<noteq> []" "length szs \<le> 2 ^ 64"
  shows "size_curve szs 0 1 0 = Some (szs ! 0)" "size_curve szs 0 1 1 = Some (last szs)"
proof -
  have n: "length szs - 1 < 2 ^ 64" "length szs - 1 < length szs" "0 < length szs"
    using assms by (simp_all add: Suc_le_eq less_imp_diff_less)
  have z: "to_size_t 0 = Some 0" using to_size_t_of_nat[of 0] by simp
  show "size_curve szs 0 1 0 = Some (szs ! 0)"
    using n assms(1) by (simp add: size_curve_def z vec_at_def size_t_minus1_def)
  show "size_curve szs 0 1 1 = Some (last szs)"
    using n assms(1) to_size_t_of_nat[OF n(1)]
    by (simp add: size_curve_def vec_at_def size_t_minus1_def last_conv_nth)
qed

lemma curve_single:
  "color_curve [c] t = Some c" "size_curve [x] off ivl t = Some x"
proof -
  have z: "to_size_t 0 = Some 0" using to_size_t_of_nat[of 0] by simp
  show "color_curve [c] t = Some c"
    by (simp add: color_curve_def z vec_at_def size_t_minus1_def color_blend_ends)
  show "size_curve [x] off ivl t = Some x"
    by (simp add: size_curve_def z vec_at_def size_t_minus1_def)
qed

lemma spawned_window:
  "sizeVariation s = 0 \<Longrightarrow> p_sizeOffset (spawned s) = 0 \<and> p_sizeIntervalSize (spawned s) = 1"
  by (simp add: spawned_def rng_random_def rng_discard_def Let_def)

section \<open>Example systems\<close>

definition example_rng :: RandomGenerator where
  "example_rng = \<lparr>unit_draws = (\<lambda>_. 1 / 2), int_draws = (\<lambda>n. n), drawn = 0\<rparr>"

definition blank :: Particle where
  "blank = \<lparr>p_prev = None, p_next = None, p_lifetime = 0, p_life = 0, p_size = 0,
            p_sizeOffset = 0, p_sizeIntervalSize = 0, p_color = Colorf 0 0 0 0,
            p_quadIndex = 0\<rparr>"

definition live :: "nat option \<Rightarrow> nat option \<Rightarrow> Particle" where
  "live a b = \<lparr>p_prev = a, p_next = b, p_lifetime = 0, p_life = 0, p_size = 1,
               p_sizeOffset = 0, p_sizeIntervalSize = 1, p_color = Colorf 1 1 1 1,
               p_quadIndex = 0\<rparr>"

definition example_system :: ParticleSystem where
  "example_system =
     \<lparr>pMem = Some [blank, blank, blank, blank], pFree = 0, pHead = None, pTail = None,
      active = True, insertMode = INSERT_MODE_TOP, maxParticles = 4, activeParticles = 0,
      emissionRate = Finite 0, emitCounter = Finite 0,
      areaSpreadDistribution = DISTRIBUTION_NONE, lifetime = - 1, life = - 1,
      particleLifeMin = 0, particleLifeMax = 0, sizes = [1], sizeVariation = 0,
      colors = [Colorf 1 1 1 1], quads = [], rng = example_rng\<rparr>"

definition example_pool ::
  "Particle list \<Rightarrow> nat \<Rightarrow> nat option \<Rightarrow> nat option \<Rightarrow> ParticleSystem" where
  "example_pool m n h t =
     example_system\<lparr>pMem := Some m, pFree := n, pHead := h, pTail := t, activeParticles := n,
                     rng := example_rng\<lparr>drawn := 12 * n\<rparr>\<rparr>"

definition example_three :: ParticleSystem where
  "example_three =
     example_pool [live None (Some 1), live (Some 0) (Some 2), live (Some 1) None, blank]
       3 (Some 0) (Some 2)"

lemma upt_4: "[0..<4] = [0, 1, 2, 3]"
  by (simp add: upt_rec)

lemma example_constructed:
  "new_ParticleSystem 1000 (Some (\<lambda>_. blank)) example_rng 4 = Inr example_system"
  by (simp add: new_ParticleSystem_def setBufferSize_def createBuffers_def deleteBuffers_def
      reset_def u32_def example_system_def upt_4)

lemmas example_eval =
  addParticle_def isFull_def initParticle_def insertTop_def assign_def deref_def
  rng_random_def rng_discard_def area_draws_def to_size_t_def vec_at_def size_t_minus1_def
  u32_def Let_def
  example_pool_def example_system_def example_rng_def blank_def live_def

lemma example_add_1:
  "addParticle (Finite 1) example_system = Some (example_pool [live None None, blank, blank, blank] 1 (Some 0) (Some 0))"
  by (simp add: example_eval)

lemma example_add_2:
  "addParticle (Finite 1) (example_pool [live None None, blank, blank, blank] 1 (Some 0) (Some 0)) =
     Some (example_pool [live None (Some 1), live (Some 0) None, blank, blank] 2 (Some 0) (Some 1))"
  by (simp add: example_eval)

lemma example_add_3:
  "addParticle (Finite 1) (example_pool [live None (Some 1), live (Some 0) None, blank, blank] 2 (Some 0) (Some 1)) =
     Some example_three"
  by (simp add: example_eval example_three_def)

lemma example_emit_three: "emit 3 example_system = Some example_three"
proof -
  have "emit 3 example_system = emit_loop (Suc (Suc (Suc 0))) example_system"
    by (simp add: emit_def u32_def example_system_def numeral_3_eq_3)
  then show ?thesis
    by (simp only: emit_loop.simps example_add_1 example_add_2 example_add_3 Option.bind.simps)
qed

lemma constructed_sys_inv:
  assumes "new_ParticleSystem M (Some f) g n = Inr s" "M < 2 ^ 32"
    and "\<forall>k. 0 \<le> unit_draws g k \<and> unit_draws g k \<le> 1"
  shows "sys_inv s []"
proof -
  have n: "n \<noteq> 0" "n \<le> M" using assms(1) by (auto simp: new_ParticleSystem_def split: if_splits)
  then have "u32 n = n" using assms(2) by (intro u32_id) simp
  then show ?thesis using assms n
    by (auto simp: new_ParticleSystem_def setBufferSize_def createBuffers_def deleteBuffers_def
        reset_def sys_inv_def pool_inv_def listed_def linked_def tail_ok_def config_ok_def)
qed

lemma example_sys_inv: "sys_inv example_system []"
  using example_constructed by (rule constructed_sys_inv) (simp_all add: example_rng_def)

lemma example_three_pool: "pool_inv example_three [0, 1, 2]"
  by (auto simp: pool_inv_def listed_def linked_def tail_ok_def example_three_def
      example_pool_def example_system_def live_def)

definition example_finite :: ParticleSystem where
  "example_finite = example_system\<lparr>lifetime := 1, life := 1 / 2\<rparr>"

lemma example_finite_inv: "sys_inv example_finite []"
  by (auto simp: example_finite_def example_system_def example_rng_def sys_inv_def pool_inv_def
      listed_def linked_def tail_ok_def config_ok_def)

definition example_varied :: ParticleSystem where
  "example_varied = example_system\<lparr>sizes := [1, 3], sizeVariation := 1\<rparr>"

definition example_wide :: ParticleSystem where
  "example_wide = example_system\<lparr>sizes := [1, 2], sizeVariation := 3,
                                  rng := example_rng\<lparr>unit_draws := (\<lambda>_. 9 / 10)\<rparr>\<rparr>"

definition example_aging :: ParticleSystem where
  "example_aging = example_system\<lparr>particleLifeMin := 1, particleLifeMax := 1, sizes := [1, 3]\<rparr>"

lemma example_aging_inv: "sys_inv example_aging []"
  by (auto simp: example_aging_def example_system_def example_rng_def sys_inv_def pool_inv_def
      listed_def linked_def tail_ok_def config_ok_def)

definition example_negzero :: ParticleSystem where
  "example_negzero = example_system\<lparr>emissionRate := NegZero\<rparr>"

lemma example_negzero_inv: "sys_inv example_negzero []"
  by (auto simp: example_negzero_def example_system_def example_rng_def sys_inv_def pool_inv_def
      listed_def linked_def tail_ok_def config_ok_def)







lemma fl32_eighths:
  "fl32 1 = Finite 1" "fl32 (1 / 8) = Finite (1 / 8)" "fl32 (1 / 4) = Finite (1 / 4)"
  "fl32 (3 / 8) = Finite (3 / 8)"
  using fl32_normal[of 0 1 "2 ^ 23"] fl32_normal[of "- 3" "1 / 8" "2 ^ 23"]
    fl32_normal[of "- 2" "1 / 4" "2 ^ 23"] fl32_normal[of "- 2" "3 / 8" "3 * 2 ^ 22"]
  by (simp_all add: pow2_def round_even_def Let_def)


section \<open>The claims\<close>

lemma sys_inv_pool:
  assumes "sys_inv s xs"
  shows "activeParticles s \<le> maxParticles s \<and> active_list s = Some xs \<and>
         length xs = activeParticles s \<and> free_slots_unlinked s xs"
proof -
  have p: "pool_inv s xs" using assms by (simp add: sys_inv_def)
  have "activeParticles s \<le> maxParticles s" using p by (simp add: pool_inv_def)
  then show ?thesis
    using pool_inv_active_list[OF p] pool_inv_count[OF p] pool_inv_unlinked[OF p] by simp
qed

lemma zero_rate_returns:
  assumes "sys_inv s xs" "0 < dt" "emissionRate s = Finite 0"
  shows "update dt s \<noteq> None"
proof
  assume "update dt s = None"
  then have "update_stalls dt s" using update_sys_inv[OF assms(1,2)] by simp
  then obtain s1 where s1: "update_particles dt (pHead s) s = Some s1"
    "\<forall>n. \<exists>t ys. emitter_run n dt s1 = Some t \<and> f_less (emitter_rate s1) (emitCounter t) \<and>
            sys_inv t ys \<and> config t = config s"
    unfolding update_stalls_def by blast
  obtain t ys where t: "f_less (emitter_rate s1) (emitCounter t)" "emitter_run 0 dt s1 = Some t"
    "config t = config s"
    using s1(2) by blast
  have "t = emitter_start dt s1" using t(2) by (simp add: emitter_run_def)
  then have "config s1 = config s" using t(3) by simp
  then have "emissionRate s1 = Finite 0" using config_fields(3)[of s1 s] assms(3) by simp
  then show False using t(1) by simp
qed

lemma run_zero_rate_returns:
  "sys_inv s xs \<Longrightarrow> list_all call_ok cs \<Longrightarrow> emissionRate s = Finite 0 \<Longrightarrow> run cs s \<noteq> None"
proof (induction cs arbitrary: s xs)
  case Nil
  then show ?case by simp
next
  case (Cons c cs)
  have ok: "call_ok c" "list_all call_ok cs" using Cons.prems(2) by simp_all
  note st = step_call_inv[OF Cons.prems(1) ok(1)]
  have "step_call c s \<noteq> None"
  proof
    assume "step_call c s = None"
    then obtain dt where dt: "c = Update dt" "update_stalls dt s" using st by blast
    have "dt \<noteq> 0"
    proof
      assume "dt = 0"
      then have "update dt s = Some s" by (simp add: update_def)
      then show False using \<open>step_call c s = None\<close> dt(1) by simp
    qed
    then have pos: "0 < dt" using ok(1) dt(1) by simp
    have "update dt s \<noteq> None" using zero_rate_returns[OF Cons.prems(1) pos Cons.prems(3)] .
    then show False using \<open>step_call c s = None\<close> dt(1) by simp
  qed
  then obtain s1 where s1: "step_call c s = Some s1" by blast
  then obtain ys where ys: "sys_inv s1 ys" "config s1 = config s" using st by blast
  have "emissionRate s1 = Finite 0" using config_fields(3)[OF ys(2)] Cons.prems(3) by simp
  then have "run cs s1 \<noteq> None" using Cons.IH[OF ys(1) ok(2)] by simp
  then show ?case using s1 by simp
qed

text \<open>
  C1. As stated the claim fails: the calls of a sequence can have any time step, and
  nothing in \<^verbatim>\<open>update\<close> rejects a negative one. With \<open>dt = - 1\<close> a particle of lifetime 1
  has life 2 afterwards, its age \<open>t = 1 - life / lifetime\<close> is \<open>- 1\<close>, the position in the
  size curve \<open>[1, 3]\<close> is \<open>- 1\<close>, and \<^verbatim>\<open>(size_t)s\<close> is not an index of the array: the
  behaviour of \<^verbatim>\<open>update\<close> is undefined, which the model reports as \<open>None\<close>.
\<close>

theorem negative_step_leaves_the_size_curve:
  "sys_inv example_aging [] \<and> run [Emit 1, Update (- 1)] example_aging = None \<and>
   map_option (p_life \<circ> hd \<circ> the \<circ> pMem) (emit 1 example_aging) = Some 1 \<and>
   size_curve (sizes example_aging) 0 1 (1 - 2 / 1) = None \<and> to_size_t (- 1) = None"
proof -
  have "emit 1 example_aging = emit_loop (Suc 0) example_aging"
    by (simp add: emit_def u32_def example_aging_def example_system_def del: emit_loop.simps)
  then have e: "emit 1 example_aging = addParticle (Finite 1) example_aging"
    by (simp only: emit_one)
  have "run [Emit 1, Update (- 1)] example_aging = None"
    unfolding run.simps step_call.simps e
    by (simp add: example_eval example_aging_def update_def)
      (subst update_particles.simps,
        simp add: assign_def deref_def integrate_def age_def size_curve_def to_size_t_def
          size_t_minus1_def)
  then show ?thesis using example_aging_inv e
    by (simp add: example_eval example_aging_def size_curve_def to_size_t_def size_t_minus1_def)
qed

text \<open>
  C1, amended. For every sequence of \<^verbatim>\<open>emit\<close> and \<^verbatim>\<open>update\<close> calls with time steps that
  are not negative, on a system that satisfies the invariant \<open>sys_inv\<close> (a constructed
  system does: \<open>constructed_sys_inv\<close>): when the calls return, the invariant holds
  again, and with it the number of active particles is at most the capacity, the list
  reachable from the head has exactly that many nodes, and no slot at or past the free
  boundary is in the list or is the target of a link of the list, of the head or of the
  tail (\<open>sys_inv_pool\<close>). The calls fail to return only in one way: an \<^verbatim>\<open>update\<close> is
  reached, in a state that satisfies the invariant, whose emission loop does not end
  (\<open>update_stalls\<close>), and then the invariant holds after every iteration of that loop.
  With a rate of \<^verbatim>\<open>+0.0f\<close>, the rate of a constructed system, every call returns
  (\<open>run_zero_rate_returns\<close>).
\<close>

theorem pool_invariant:
  assumes "sys_inv s xs" and "list_all call_ok cs"
  shows "(\<forall>s'. run cs s = Some s' \<longrightarrow>
            (\<exists>ys. sys_inv s' ys \<and> activeParticles s' \<le> maxParticles s' \<and>
                  maxParticles s' = maxParticles s \<and> active_list s' = Some ys \<and>
                  length ys = activeParticles s' \<and> free_slots_unlinked s' ys)) \<and>
         (run cs s = None \<longrightarrow>
            (\<exists>k dt sk ys. k < length cs \<and> cs ! k = Update dt \<and>
                  run (take k cs) s = Some sk \<and> sys_inv sk ys \<and> update_stalls dt sk)) \<and>
         (emissionRate s = Finite 0 \<longrightarrow> run cs s \<noteq> None)"
proof (intro conjI allI impI)
  fix s' assume "run cs s = Some s'"
  then obtain ys where r: "sys_inv s' ys" "config s' = config s"
    using run_inv[OF assms] by blast
  show "\<exists>ys. sys_inv s' ys \<and> activeParticles s' \<le> maxParticles s' \<and>
          maxParticles s' = maxParticles s \<and> active_list s' = Some ys \<and>
          length ys = activeParticles s' \<and> free_slots_unlinked s' ys"
    using r(1) sys_inv_pool[OF r(1)] config_fields(2)[OF r(2)] by blast
next
  assume "run cs s = None"
  then show "\<exists>k dt sk ys. k < length cs \<and> cs ! k = Update dt \<and>
       run (take k cs) s = Some sk \<and> sys_inv sk ys \<and> update_stalls dt sk"
    using run_inv[OF assms] by blast
next
  assume "emissionRate s = Finite 0"
  then show "run cs s \<noteq> None" using run_zero_rate_returns[OF assms] by simp
qed

theorem pool_invariant_witness:
  "sys_inv example_system [] \<and> list_all call_ok [Emit 2, Update 1, Emit 7] \<and>
   emissionRate example_system = Finite 0 \<and>
   (\<exists>s' ys. run [Emit 2, Update 1, Emit 7] example_system = Some s' \<and> sys_inv s' ys \<and>
      activeParticles s' \<le> maxParticles s' \<and> maxParticles s' = maxParticles example_system \<and>
      active_list s' = Some ys \<and> length ys = activeParticles s' \<and>
      free_slots_unlinked s' ys)"
proof -
  have h: "list_all call_ok [Emit 2, Update 1, Emit 7]" by simp
  have z: "emissionRate example_system = Finite 0" by (simp add: example_system_def)
  note t = pool_invariant[OF example_sys_inv h]
  obtain s' where s': "run [Emit 2, Update 1, Emit 7] example_system = Some s'"
    using t z by blast
  then show ?thesis using t example_sys_inv h z by blast
qed

text \<open>
  C2. Removing an active particle \<open>p\<close>, the list being \<open>us @ p # vs\<close>: the call returns;
  the list is then \<open>us @ vs\<close> with the last allocated slot \<open>pFree - 1\<close> renamed to \<open>p\<close>
  (\<open>moved\<close>), its links, head and tail repaired; the free boundary and the count go
  down by one; slot \<open>p\<close> holds the content of the last allocated slot, and every other
  particle keeps its content; and the result is the first node after the removed one,
  under the same renaming: the freed position \<open>p\<close> when that node was the last
  allocated slot.
\<close>

theorem removeParticle_returns_next:
  assumes "pool_inv s (us @ p # vs)"
  shows "\<exists>s'. removeParticle p s = Some (map_option (moved (pFree s - 1) p) (first_of vs), s') \<and>
           pool_inv s' (map (moved (pFree s - 1) p) (us @ vs)) \<and>
           active_list s' = Some (map (moved (pFree s - 1) p) (us @ vs)) \<and>
           pHead s' = first_of (map (moved (pFree s - 1) p) (us @ vs)) \<and>
           (vs = [] \<longrightarrow> pTail s' = last_of (map (moved (pFree s - 1) p) us)) \<and>
           pFree s' = pFree s - 1 \<and> activeParticles s' = activeParticles s - 1 \<and>
           payload (the (pMem s') ! p) = payload (the (pMem s) ! (pFree s - 1)) \<and>
           (\<forall>v\<in>set (us @ vs).
              payload (the (pMem s') ! moved (pFree s - 1) p v) = payload (the (pMem s) ! v))"
proof -
  define q where "q = pFree s - 1"
  obtain s' where r: "removeParticle p s = Some (map_option (moved q p) (first_of vs), s')"
    "pool_inv s' (map (moved q p) (us @ vs))"
    "listed (insertMode s = INSERT_MODE_RANDOM \<and> vs \<noteq> []) s' (map (moved q p) (us @ vs))"
    "frame s' = frame (s\<lparr>pMem := map_option (\<lambda>m. m[p := m ! q]) (pMem s),
                          pFree := q, activeParticles := activeParticles s - 1\<rparr>)"
    using removeParticle_pool[OF assms] unfolding q_def by blast
  obtain m where m: "pMem s = Some m" "distinct (us @ p # vs)" "length m = maxParticles s"
    "set (us @ p # vs) = {0..<pFree s}" "pFree s \<le> maxParticles s"
    using assms by (auto simp: pool_inv_def listed_def split: option.splits)
  have "p \<in> {0..<pFree s}" unfolding m(4)[symmetric] by simp
  then have lt: "p < length m" "q < length m" using m(3,5) by (simp_all add: q_def)
  have fr: "frame s' = frame (s\<lparr>pMem := Some (m[p := m ! q]), pFree := q,
                                activeParticles := activeParticles s - 1\<rparr>)"
    using r(4) m(1) by simp
  note f = frame_fields[OF fr]
  obtain m' where m': "pMem s' = Some m'" "length m' = length (m[p := m ! q])"
    "\<forall>i<length (m[p := m ! q]). payload (m' ! i) = payload (m[p := m ! q] ! i)"
    using frame_payload[OF fr, of "m[p := m ! q]"] by auto
  have tail: "pTail s' = last_of (map (moved q p) us)" if "vs = []"
    using r(3) that by (auto simp: listed_def tail_ok_def split: option.splits)
  have pay_p: "payload (the (pMem s') ! p) = payload (the (pMem s) ! q)"
    using m' m(1) lt by simp
  have pay: "payload (the (pMem s') ! moved q p v) = payload (the (pMem s) ! v)"
    if "v \<in> set (us @ vs)" for v
  proof -
    have v: "v \<noteq> p" "v < length m"
      using that m(2) pool_inv_in_range[OF assms m(1), of v] by auto
    show ?thesis
    proof (cases "v = q")
      case True
      then show ?thesis using m' m(1) lt by (simp add: moved_def)
    next
      case False
      then show ?thesis using m' m(1) v by (simp add: moved_def)
    qed
  qed
  show ?thesis unfolding q_def[symmetric]
    using r(1,2) pool_inv_active_list[OF r(2)] pool_inv_head[OF r(2)] tail f(1,2) pay_p pay
    by (intro exI[of _ s']) simp
qed

theorem removeParticle_returns_next_witness:
  "pool_inv example_three ([0] @ 1 # [2]) \<and>
   (\<exists>s'. removeParticle 1 example_three = Some (Some 1, s') \<and>
      active_list s' = Some [0, 1] \<and> pHead s' = Some 0 \<and>
      pFree s' = 2 \<and> activeParticles s' = 2 \<and>
      payload (the (pMem s') ! 1) = payload (the (pMem example_three) ! 2))"
proof -
  have h: "pool_inv example_three ([0] @ 1 # [2])" using example_three_pool by simp
  have e: "pFree example_three = 3" "activeParticles example_three = 3"
    by (simp_all add: example_three_def example_pool_def)
  show ?thesis using removeParticle_returns_next[OF h] h
    by (auto simp: e moved_def)
qed

text \<open>
  C8. \<^verbatim>\<open>stop()\<close>, in any state: the system is stopped afterwards, the remaining life of
  the emitter is its configured lifetime, \<^verbatim>\<open>emitCounter\<close> is zero, and nothing else
  has changed: undoing these three assignments gives the state before the call, so the
  array of particles, the list and the count are the same.
\<close>

theorem stop_frame:
  "isStopped (stop s) \<and> \<not> isActive (stop s) \<and> life (stop s) = lifetime s \<and>
   emitCounter (stop s) = Finite 0 \<and>
   (stop s)\<lparr>active := active s, life := life s, emitCounter := emitCounter s\<rparr> = s \<and>
   pMem (stop s) = pMem s \<and> pFree (stop s) = pFree s \<and> pHead (stop s) = pHead s \<and>
   pTail (stop s) = pTail s \<and> activeParticles (stop s) = activeParticles s \<and>
   active_list (stop s) = active_list s"
  by (simp add: stop_def isStopped_def isActive_def active_list_def split: option.splits)

text \<open>
  C10. \<^verbatim>\<open>setParticleLifetime(min, max)\<close> sets the minimum to \<open>min\<close>, and the maximum to
  \<open>min\<close> when \<open>max\<close> is 0 and to \<open>max\<close> otherwise; nothing else changes.
\<close>

theorem setParticleLifetime_sentinel:
  "particleLifeMin (setParticleLifetime min' max' s) = min' \<and>
   particleLifeMax (setParticleLifetime min' max' s) = (if max' = 0 then min' else max') \<and>
   setParticleLifetime min' max' s =
     s\<lparr>particleLifeMin := min', particleLifeMax := (if max' = 0 then min' else max')\<rparr>"
  by (simp add: setParticleLifetime_def)

text \<open>
  C4. As stated the claim fails: \<^verbatim>\<open>reset()\<close> never assigns \<^verbatim>\<open>active\<close>, so a system that
  was emitting is not stopped afterwards; a freshly constructed system is active, and
  is still active after \<^verbatim>\<open>reset()\<close>.
\<close>

theorem reset_not_stopped:
  "\<not> isStopped (reset example_system) \<and> isActive (reset example_system)"
  by (simp add: isStopped_def isActive_def reset_def example_system_def)

text \<open>
  C4, amended. After \<^verbatim>\<open>reset()\<close> on a system whose buffer is allocated the pool is
  drained (no active particle, an empty list, the free boundary at the start of the
  array), \<^verbatim>\<open>emitCounter\<close> is 0 and the remaining life of the emitter is its
  configured lifetime; \<^verbatim>\<open>active\<close> is unchanged, so the system is stopped exactly when
  the emitter was not active before; and with an inactive emitter an \<^verbatim>\<open>update\<close> then
  changes nothing.
\<close>

theorem reset_clears_pool:
  assumes "pMem s \<noteq> None"
  shows "activeParticles (reset s) = 0 \<and> pFree (reset s) = 0 \<and> pHead (reset s) = None \<and>
         pTail (reset s) = None \<and> active_list (reset s) = Some [] \<and>
         emitCounter (reset s) = Finite 0 \<and> life (reset s) = lifetime s \<and>
         active (reset s) = active s \<and> isStopped (reset s) = (\<not> active s) \<and>
         (\<not> active s \<longrightarrow> update dt (reset s) = Some (reset s))"
proof -
  have "update_particles dt None t = Some t" for t
    by (subst update_particles.simps) simp
  then show ?thesis using assms
    by (auto simp: reset_def isStopped_def active_list_def update_def)
qed

theorem reset_clears_pool_witness:
  "pMem (pause example_three) \<noteq> None \<and> activeParticles (reset (pause example_three)) = 0 \<and>
   active_list (reset (pause example_three)) = Some [] \<and>
   isStopped (reset (pause example_three)) \<and>
   update 1 (reset (pause example_three)) = Some (reset (pause example_three))"
proof -
  have h: "pMem (pause example_three) \<noteq> None"
    by (simp add: pause_def example_three_def example_pool_def)
  have a: "\<not> active (pause example_three)" by (simp add: pause_def)
  show ?thesis using reset_clears_pool[OF h, of 1] h a by simp
qed

text \<open>
  C5. As stated the claim fails: the remaining life is decreased by \<open>dt\<close> on every
  tick of an active emitter, also when the lifetime is infinite (\<open>- 1\<close>); only the
  transition to the stopped state is guarded by \<^verbatim>\<open>lifetime != -1\<close>.
\<close>

theorem infinite_lifetime_life_decreases:
  "lifetime example_system = - 1 \<and> life example_system = - 1 \<and> active example_system \<and>
   map_option life (update 1 example_system) = Some (- 2)"
proof -
  have "map_option life (update 1 example_system) = Some (- 2)" by code_simp
  then show ?thesis by (simp add: example_system_def)
qed

text \<open>
  C5, amended. On a tick of \<open>dt > 0\<close> with the emitter active that returns: when the
  configured lifetime is finite (not \<open>- 1\<close>) and the remaining life minus \<open>dt\<close> is negative,
  the system is stopped, \<^verbatim>\<open>emitCounter\<close> is 0 and the remaining life is the configured
  lifetime; otherwise the emitter is still active and the remaining life is the old one
  minus \<open>dt\<close>, whether the lifetime is finite or not. The tick returns unless its emission
  loop does not end (\<open>update_stalls\<close>); with a rate of \<^verbatim>\<open>+0.0f\<close> it returns.
\<close>

theorem update_emitter_life:
  assumes "sys_inv s xs" "active s" "0 < dt"
  shows "(\<forall>s'. update dt s = Some s' \<longrightarrow>
            (if lifetime s \<noteq> - 1 \<and> life s - dt < 0
             then isStopped s' \<and> \<not> active s' \<and> life s' = lifetime s \<and> emitCounter s' = Finite 0
             else active s' \<and> life s' = life s - dt)) \<and>
         (update dt s = None \<longleftrightarrow> update_stalls dt s) \<and>
         (emissionRate s = Finite 0 \<longrightarrow> update dt s \<noteq> None)"
proof -
  have inv: "pool_inv s xs" "config_ok s" "all_particles window_ok s xs"
    using assms(1) by (simp_all add: sys_inv_def)
  have SQ: "window_ok (spawned t)" if "config t = config s" for t
    using that inv(2) config_ok_config[OF that] window_ok_spawned by simp
  have PQ: "window_ok (x\<lparr>p_life := p_life x - dt, p_size := sz, p_color := c, p_quadIndex := q\<rparr>)"
    if "window_ok x" "0 < p_life x - dt" for x sz c q
    using that(1) assms(3) by (intro window_ok_aged) simp_all
  obtain s1 xs1 where s1: "pool_inv s1 xs1" "all_particles window_ok s1 xs1" "config_ok s1"
    "settings s1 = settings s" "config s1 = config s"
    "update dt s = (if active s then map_option (emitter_end dt) (emitter_loop dt s1) else Some s1)"
    using update_split[where P = window_ok and Q = window_ok and ?s0.0 = s and s = s and xs = xs
        and dt = dt, OF PQ _ assms(3) inv refl]
    by auto
  note f1 = settings_fields[OF s1(4)]
  have a: "if lifetime s \<noteq> - 1 \<and> life s - dt < 0
           then isStopped s' \<and> \<not> active s' \<and> life s' = lifetime s \<and> emitCounter s' = Finite 0
           else active s' \<and> life s' = life s - dt"
    if u: "update dt s = Some s'" for s'
  proof -
    obtain t where t: "emitter_loop dt s1 = Some t" "s' = emitter_end dt t"
      using u s1(6) assms(2) by auto
    then obtain n where n: "emitter_run n dt s1 = Some t"
      using emitter_loop_returns[of dt s1 t] by blast
    obtain t' where t': "emitter_run n dt s1 = Some t'" "config t' = config s"
      "life t' = life s1" "active t' = active s1"
      using emitter_run_inv[where Q = window_ok and ?s0.0 = s and n = n and dt = dt,
          OF SQ s1(1,3,2,5)] by blast
    then have tt: "config t = config s" "life t = life s" "active t"
      using n f1(1,7) assms(2) by simp_all
    have lt: "lifetime t = lifetime s" using config_fields(4)[OF tt(1)] .
    have "config s' = config t" using t(2) by simp
    then have ls: "lifetime s' = lifetime s" using config_fields(4)[of s' t] lt by simp
    show ?thesis using emitter_end_life[of t dt] t(2) tt(2,3) lt ls by (simp add: isStopped_def)
  qed
  show ?thesis
    using a update_sys_inv[OF assms(1,3)] zero_rate_returns[OF assms(1,3)] by blast
qed

theorem update_emitter_life_witness:
  "sys_inv example_finite [] \<and> active example_finite \<and> (0::real) < 1 \<and>
   emissionRate example_finite = Finite 0 \<and>
   (\<exists>s'. update 1 example_finite = Some s' \<and> isStopped s' \<and> life s' = 1 \<and>
      emitCounter s' = Finite 0)"
proof -
  have a: "active example_finite" "lifetime example_finite = 1" "life example_finite = 1 / 2"
    "emissionRate example_finite = Finite 0"
    by (simp_all add: example_finite_def example_system_def)
  have d: "(0::real) < 1" by simp
  note t = update_emitter_life[OF example_finite_inv a(1) d]
  obtain s' where s': "update 1 example_finite = Some s'" using t a(4) by blast
  then show ?thesis using t example_finite_inv a by auto
qed

lemma minus_infinity_run:
  assumes SQ: "\<And>t. config t = config s0 \<Longrightarrow> Q (spawned t)"
  shows "pool_inv s xs \<Longrightarrow> config_ok s \<Longrightarrow> all_particles Q s xs \<Longrightarrow> config s = config s0 \<Longrightarrow>
     emitCounter s \<noteq> MinusInfinity \<Longrightarrow> emitCounter s \<noteq> NaN \<Longrightarrow>
     \<exists>t. emission_run n MinusInfinity el s = Some t \<and> f_less MinusInfinity (emitCounter t) \<and>
         activeParticles t = min (maxParticles s) (activeParticles s + n)"
proof (induction n arbitrary: s xs)
  case 0
  have "activeParticles s \<le> maxParticles s" using 0(1) by (simp add: pool_inv_def)
  then show ?case using 0 by (simp add: f_less_MinusInfinity)
next
  case (Suc n)
  have less: "f_less MinusInfinity (emitCounter s)"
    using Suc.prems(5,6) by (simp add: f_less_MinusInfinity)
  obtain s1 ys where s1: "emission_body MinusInfinity el s = Some s1" "pool_inv s1 ys"
    "config_ok s1" "all_particles Q s1 ys" "config s1 = config s0"
    "emitCounter s1 = f_sub (emitCounter s) MinusInfinity"
    "activeParticles s1 = min (maxParticles s) (activeParticles s + 1)"
    using emission_body_inv[where Q = Q and rate = MinusInfinity and el = el,
        OF SQ Suc.prems(1,2,3,4)] by blast
  have e1: "emitCounter s1 = PlusInfinity"
    using s1(6) f_sub_MinusInfinity[OF Suc.prems(5,6)] by simp
  have m1: "maxParticles s1 = maxParticles s"
    using config_fields(2)[of s1 s] s1(5) Suc.prems(4) by simp
  obtain t where t: "emission_run n MinusInfinity el s1 = Some t"
    "f_less MinusInfinity (emitCounter t)"
    "activeParticles t = min (maxParticles s1) (activeParticles s1 + n)"
    using Suc.IH[OF s1(2,3,4,5)] e1 by auto
  have "emission_run (Suc n) MinusInfinity el s = Some t" using less s1(1) t(1) by simp
  moreover have "activeParticles t = min (maxParticles s) (activeParticles s + Suc n)"
    using t(3) s1(7) m1 by (simp add: min_def)
  ultimately show ?case using t(2) by simp
qed

text \<open>
  C6. As stated the claim fails: \<^verbatim>\<open>setEmissionRate\<close> rejects a rate \<^verbatim>\<open>< 0\<close>, which the zero
  \<^verbatim>\<open>-0.0f\<close> is not, and with that rate \<^verbatim>\<open>1.0f / emissionRate\<close> is \<open>-\<infinity>\<close>: the condition
  \<^verbatim>\<open>emitCounter > rate\<close> holds in every iteration of the emission loop (\<^verbatim>\<open>emitCounter\<close> is
  \<open>+\<infinity>\<close> after the first), every iteration calls \<^verbatim>\<open>addParticle\<close>, the pool of 4 slots is
  full after 4 iterations, and \<^verbatim>\<open>update\<close> does not return.
\<close>

theorem negative_zero_rate_never_returns:
  "setEmissionRate NegZero example_system = Inr example_negzero \<and>
   emitter_rate example_negzero = MinusInfinity \<and>
   activeParticles example_negzero = 0 \<and>
   map_option activeParticles (emitter_run 4 1 example_negzero) = Some 4 \<and>
   update 1 example_negzero = None"
proof -
  have inv: "pool_inv example_negzero []" "config_ok example_negzero"
    "all_particles window_ok example_negzero []"
    using example_negzero_inv by (simp_all add: sys_inv_def)
  have SQ: "window_ok (spawned t)" if "config t = config example_negzero" for t
    using that inv(2) config_ok_config[OF that] window_ok_spawned by simp
  have f: "emissionRate example_negzero = NegZero" "emitCounter example_negzero = Finite 0"
    "activeParticles example_negzero = 0" "maxParticles example_negzero = 4"
    "active example_negzero" "pMem example_negzero \<noteq> None" "pHead example_negzero = None"
    by (simp_all add: example_negzero_def example_system_def)
  have r: "emitter_rate example_negzero = MinusInfinity" using f(1) by simp
  define s1 where "s1 = emitter_start 1 example_negzero"
  have e1: "emitCounter s1 = Finite 1"
    using f(2) fl32_eighths(1) by (simp add: s1_def f_add_Finite)
  have p1: "pool_inv s1 []" "all_particles window_ok s1 []" "config s1 = config example_negzero"
    "activeParticles s1 = 0" "maxParticles s1 = 4"
    using inv f(3,4) by (simp_all add: s1_def)
  have ok1: "config_ok s1" using config_ok_config[OF p1(3)] inv(2) by simp
  have ne: "emitCounter s1 \<noteq> MinusInfinity" "emitCounter s1 \<noteq> NaN" using e1 by simp_all
  have run: "\<exists>t. emitter_run n 1 example_negzero = Some t \<and>
      f_less (emitter_rate example_negzero) (emitCounter t) \<and> activeParticles t = min 4 n" for n
    using minus_infinity_run[where Q = window_ok and ?s0.0 = example_negzero and s = s1
        and xs = "[]" and n = n and el = "f_sub (emitCounter s1) MinusInfinity",
        OF SQ p1(1) ok1 p1(2,3) ne]
    unfolding emitter_run_def r s1_def[symmetric] p1(4,5)
    by simp
  have "emitter_loop 1 example_negzero = None"
    using emitter_loop_stalls[where Q = window_ok and ?s0.0 = example_negzero and dt = 1,
        OF SQ inv(1,2,3) refl] run by blast
  moreover have "update_particles 1 None example_negzero = Some example_negzero"
    by (subst update_particles.simps) simp
  ultimately have u: "update 1 example_negzero = None"
    using f(5,6,7) by (simp add: update_def update_emitter_loop)
  obtain t where "emitter_run 4 1 example_negzero = Some t" "activeParticles t = min 4 4"
    using run[of 4] by blast
  then have m4: "map_option activeParticles (emitter_run 4 1 example_negzero) = Some 4" by simp
  have "setEmissionRate NegZero example_system = Inr example_negzero"
    by (simp add: setEmissionRate_def f_less_def the_real_def example_negzero_def)
  then show ?thesis using u r f(3) m4 by simp
qed

text \<open>
  C6, amended. A tick of \<open>dt > 0\<close> with the emitter active and an emission rate of
  \<^verbatim>\<open>+0.0f\<close>: the quotient \<^verbatim>\<open>1.0f / emissionRate\<close> is \<open>+\<infinity>\<close> (IEEE 754; no trap), which
  \<^verbatim>\<open>emitCounter\<close> never exceeds, so the tick returns and the pool it leaves is the pool the
  particle loop left: no particle is added.
\<close>

theorem zero_rate_no_emission:
  assumes "sys_inv s xs" "active s" "emissionRate s = Finite 0" "0 < dt"
  shows "\<exists>s1 s'. update_particles dt (pHead s) s = Some s1 \<and> update dt s = Some s' \<and>
           emitter_rate s = PlusInfinity \<and>
           pMem s' = pMem s1 \<and> pFree s' = pFree s1 \<and> pHead s' = pHead s1 \<and>
           pTail s' = pTail s1 \<and> activeParticles s' = activeParticles s1 \<and>
           rng s' = rng s1 \<and> activeParticles s' \<le> activeParticles s"
proof -
  have inv: "pool_inv s xs" "config_ok s" "all_particles window_ok s xs"
    using assms(1) by (simp_all add: sys_inv_def)
  have PQ: "window_ok (x\<lparr>p_life := p_life x - dt, p_size := sz, p_color := c, p_quadIndex := q\<rparr>)"
    if "window_ok x" "0 < p_life x - dt" for x sz c q
    using that(1) assms(4) by (intro window_ok_aged) simp_all
  obtain s1 xs1 where s1: "update_particles dt (pHead s) s = Some s1" "pool_inv s1 xs1"
    "settings s1 = settings s" "length xs1 \<le> length xs"
    "update dt s = (if active s then map_option (emitter_end dt) (emitter_loop dt s1) else Some s1)"
    using update_split[where P = window_ok and Q = window_ok and ?s0.0 = s and s = s and xs = xs
        and dt = dt, OF PQ _ assms(4) inv refl]
    by auto
  note f1 = settings_fields[OF s1(3)]
  have le: "activeParticles s1 \<le> activeParticles s"
    using s1(4) pool_inv_count[OF s1(2)] pool_inv_count[OF inv(1)] by simp
  have r1: "emitter_rate s1 = PlusInfinity" using f1(4) assms(3) by simp
  have "emitter_loop dt s1 = Some (emitter_start dt s1)"
    unfolding emitter_loop_def r1 by (subst emission_loop.simps) simp
  then have "update dt s = Some (emitter_end dt (emitter_start dt s1))"
    using s1(5) assms(2) by simp
  then show ?thesis using s1(1) le assms(3)
    by (intro exI[of _ s1] exI[of _ "emitter_end dt (emitter_start dt s1)"])
      (simp add: emitter_end_def emitter_start_def stop_def Let_def)
qed

theorem zero_rate_no_emission_witness:
  "sys_inv example_system [] \<and> active example_system \<and>
   emissionRate example_system = Finite 0 \<and> (0::real) < 1 \<and>
   (\<exists>s'. update 1 example_system = Some s' \<and> activeParticles s' \<le> activeParticles example_system)"
proof -
  have a: "active example_system" "emissionRate example_system = Finite 0"
    by (simp_all add: example_system_def)
  have d: "(0::real) < 1" by simp
  show ?thesis using zero_rate_no_emission[OF example_sys_inv a d] example_sys_inv a by auto
qed

text \<open>
  C7. As stated the claim fails for the size: the curve of sizes is evaluated at
  \<^verbatim>\<open>sizeOffset + t * sizeIntervalSize\<close>, not at \<open>t\<close>. With a size variation of 1 and the
  draws of \<open>example_rng\<close> (both \<open>1 / 2\<close>), \<^verbatim>\<open>emit(1)\<close> creates a particle with
  \<^verbatim>\<open>sizeOffset\<close> \<open>1 / 2\<close> and \<^verbatim>\<open>sizeIntervalSize\<close> 0; for the sizes \<open>[1, 3]\<close> its size is 2
  at \<open>t = 0\<close> and at \<open>t = 1\<close>, neither the first control point nor the last.
\<close>

theorem size_curve_ends_off_the_control_points:
  "map_option (p_sizeOffset \<circ> hd \<circ> the \<circ> pMem) (emit 1 example_varied) = Some (1 / 2) \<and>
   map_option (p_sizeIntervalSize \<circ> hd \<circ> the \<circ> pMem) (emit 1 example_varied) = Some 0 \<and>
   size_curve (sizes example_varied) (1 / 2) 0 0 = Some 2 \<and>
   size_curve (sizes example_varied) (1 / 2) 0 1 = Some 2 \<and>
   sizes example_varied ! 0 = 1 \<and> last (sizes example_varied) = 3"
proof -
  have "emit 1 example_varied = emit_loop (Suc 0) example_varied"
    by (simp add: emit_def u32_def example_varied_def example_system_def del: emit_loop.simps)
  then have "emit 1 example_varied = addParticle (Finite 1) example_varied"
    by (simp only: emit_one)
  then show ?thesis
    by (simp add: example_eval example_varied_def size_curve_def)
qed

text \<open>
  C7, amended. For an array of colours of length at least 1 the colour curve gives
  exactly the first control point at \<open>t = 0\<close> and exactly the last one at \<open>t = 1\<close>, and the
  index stays within the array. The size curve is evaluated over the window of the
  particle: it gives the first and the last control point at \<open>t = 0\<close> and \<open>t = 1\<close> for a
  particle whose window is the whole curve (\<^verbatim>\<open>sizeOffset\<close> 0, \<^verbatim>\<open>sizeIntervalSize\<close> 1), which
  is the window of every particle spawned with a size variation of 0. An array of length
  1 gives a constant, for every window and every \<open>t\<close>.
\<close>

theorem curve_endpoints:
  assumes "cs \<noteq> []" "length cs \<le> 2 ^ 64" "szs \<noteq> []" "length szs \<le> 2 ^ 64"
  shows "color_curve cs 0 = Some (cs ! 0) \<and> color_curve cs 1 = Some (last cs) \<and>
         size_curve szs 0 1 0 = Some (szs ! 0) \<and> size_curve szs 0 1 1 = Some (last szs) \<and>
         (sizeVariation s = 0 \<longrightarrow>
            p_sizeOffset (spawned s) = 0 \<and> p_sizeIntervalSize (spawned s) = 1) \<and>
         (length cs = 1 \<longrightarrow> color_curve cs t = Some (cs ! 0)) \<and>
         (length szs = 1 \<longrightarrow> size_curve szs off ivl t = Some (szs ! 0))"
proof -
  have "color_curve cs t = Some (cs ! 0)" if h: "length cs = 1"
  proof -
    obtain c where "cs = [c]" using h by (cases cs) auto
    then show ?thesis by (simp add: curve_single)
  qed
  moreover have "size_curve szs off ivl t = Some (szs ! 0)" if h: "length szs = 1"
  proof -
    obtain x where "szs = [x]" using h by (cases szs) auto
    then show ?thesis by (simp add: curve_single)
  qed
  ultimately show ?thesis
    using color_curve_ends[OF assms(1,2)] size_curve_ends[OF assms(3,4)] spawned_window[of s]
    by simp
qed

theorem curve_endpoints_witness:
  "[Colorf 1 0 0 1, Colorf 0 0 1 0] \<noteq> [] \<and> [1, 2, 4 :: real] \<noteq> [] \<and>
   color_curve [Colorf 1 0 0 1, Colorf 0 0 1 0] 0 = Some (Colorf 1 0 0 1) \<and>
   color_curve [Colorf 1 0 0 1, Colorf 0 0 1 0] 1 = Some (Colorf 0 0 1 0) \<and>
   size_curve [1, 2, 4] 0 1 0 = Some 1 \<and> size_curve [1, 2, 4] 0 1 1 = Some 4 \<and>
   p_sizeOffset (spawned example_system) = 0 \<and> p_sizeIntervalSize (spawned example_system) = 1"
proof -
  have v: "sizeVariation example_system = 0" by (simp add: example_system_def)
  show ?thesis
    using curve_endpoints[of "[Colorf 1 0 0 1, Colorf 0 0 1 0]" "[1, 2, 4]" example_system] v
    by simp
qed

text \<open>
  C9. As stated the claim fails: the index of the initial size is not clamped, and
  \<^verbatim>\<open>setSizeVariation\<close> accepts every value. With a size variation of 3 and a draw of \<open>9 / 10\<close> the size offset is \<open>27 / 10\<close>,
  \<^verbatim>\<open>(size_t)(sizeOffset - .5f)\<close> is 2, and with two sizes the index is \<open>2 * (2 - 1) = 2\<close>,
  one past the last element: \<^verbatim>\<open>sizes[2]\<close> is read outside the array, which the model
  reports as \<open>None\<close>, for \<^verbatim>\<open>initParticle\<close> and for the \<^verbatim>\<open>emit(1)\<close> that calls it.
\<close>

theorem initial_size_index_not_clamped:
  "example_wide = setSizeVariation 3 (example_wide\<lparr>sizeVariation := 0\<rparr>) \<and>
   fst (rng_random 0 (sizeVariation example_wide) (rng example_wide)) = 27 / 10 \<and>
   to_size_t (27 / 10 - 1 / 2) = Some 2 \<and>
   vec_at (sizes example_wide) (2 * size_t_minus1 (length (sizes example_wide))) = None \<and>
   initParticle 0 (Finite 1) (example_wide\<lparr>pFree := 1\<rparr>) = None \<and>
   emit 1 example_wide = None"
proof -
  have "emit 1 example_wide = emit_loop (Suc 0) example_wide"
    by (simp add: emit_def u32_def example_wide_def example_system_def del: emit_loop.simps)
  then have "emit 1 example_wide = addParticle (Finite 1) example_wide"
    by (simp only: emit_one)
  then show ?thesis
    by (simp add: example_eval example_wide_def setSizeVariation_def)
qed

text \<open>
  C9, amended. The index of the initial size is not clamped, and needs no clamp when the
  size variation is between 0 and 1 and the draws of the generator are in \<open>[0, 1]\<close>
  (\<open>config_ok\<close>): then \<^verbatim>\<open>sizeOffset\<close> is in \<open>[0, 1]\<close>, \<^verbatim>\<open>(size_t)(sizeOffset - .5f)\<close> is 0, the
  index is 0 whatever the number of sizes, and \<^verbatim>\<open>initParticle\<close> returns with the first
  size as the initial size.
\<close>

theorem initial_size_is_first_size:
  assumes "config_ok s" "pMem s = Some m" "p < length m"
  shows "\<exists>s'. initParticle p t s = Some s' \<and>
           to_size_t (p_sizeOffset (the (pMem s') ! p) - 1 / 2) = Some 0 \<and>
           vec_at (sizes s) (0 * size_t_minus1 (length (sizes s))) = Some (sizes s ! 0) \<and>
           p_size (the (pMem s') ! p) = sizes s ! 0"
proof -
  define s' where "s' = s\<lparr>rng := (rng s)\<lparr>drawn := drawn (rng s) + spawn_draws s\<rparr>,
             pMem := Some (m[p := (spawned s)\<lparr>p_prev := p_prev (m ! p), p_next := p_next (m ! p)\<rparr>])\<rparr>"
  have r: "initParticle p t s = Some s'"
    unfolding s'_def using assms by (rule initParticle_spawned)
  have u: "0 \<le> unit_draws (rng s) n" "unit_draws (rng s) n \<le> 1" for n
    using assms(1) by (simp_all add: config_ok_def)
  have v: "0 \<le> sizeVariation s" "sizeVariation s \<le> 1" "sizes s \<noteq> []"
    using assms(1) by (simp_all add: config_ok_def)
  note uv = unit_scaled[OF u v(1,2)]
  have idx: "to_size_t (unit_draws (rng s) n * sizeVariation s - 1 / 2) = Some 0" for n
  proof -
    have "\<lfloor>unit_draws (rng s) n * sizeVariation s - 1 / 2\<rfloor> \<le> 0"
      using uv(2)[of n] by (simp add: floor_le_iff)
    then show ?thesis using uv[of n] by (simp add: to_size_t_def)
  qed
  have p: "the (pMem s') ! p = (spawned s)\<lparr>p_prev := p_prev (m ! p), p_next := p_next (m ! p)\<rparr>"
    using assms(3) by (simp add: s'_def)
  have "to_size_t (p_sizeOffset (the (pMem s') ! p) - 1 / 2) = Some 0"
    unfolding p using idx by (simp add: spawned_def rng_random_def rng_discard_def Let_def)
  moreover have "p_size (the (pMem s') ! p) = sizes s ! 0"
    unfolding p by (simp add: spawned_def rng_random_def rng_discard_def Let_def)
  ultimately show ?thesis using r v(3) by (simp add: vec_at_def)
qed

theorem initial_size_is_first_size_witness:
  "config_ok example_varied \<and> pMem example_varied = Some [blank, blank, blank, blank] \<and>
   (0::nat) < length [blank, blank, blank, blank] \<and>
   (\<exists>s'. initParticle 0 (Finite 1) example_varied = Some s' \<and> p_size (the (pMem s') ! 0) = 1)"
proof -
  have c: "config_ok example_varied"
    by (simp add: config_ok_def example_varied_def example_system_def example_rng_def)
  have m: "pMem example_varied = Some [blank, blank, blank, blank]"
    "sizes example_varied ! 0 = 1"
    by (simp_all add: example_varied_def example_system_def)
  have l: "(0::nat) < length [blank, blank, blank, blank]" by simp
  show ?thesis using initial_size_is_first_size[OF c m(1) l, of "Finite 1"] c m by auto
qed




end
